theory Spec2Isabelle
  imports Main "HOL-Library.Word"
begin

section \<open>Tasks (MTS.cpp, lines 10-70)\<close>

text \<open>
  A C++ \<^verbatim>\<open>int\<close> is taken as the 32-bit two's complement integer it is on the usual
  platforms: a word read through \<open>sint\<close> and compared with the signed orders \<open><s\<close> and
  \<open><=s\<close>. Where a signed addition overflows (undefined in C++), \<open>+\<close> gives the wrapped
  result the hardware gives.
\<close>

type_synonym cint = "32 word"

text \<open>
  The two duration types handed to \<^verbatim>\<open>std::this_thread::sleep_for\<close>:
  \<^verbatim>\<open>std::chrono::milliseconds\<close> (lines 100 and 107) and \<^verbatim>\<open>std::chrono::seconds\<close> (line 53).
\<close>

datatype duration = Milliseconds cint | Seconds cint

text \<open>
  \<^verbatim>\<open>Task::execute\<close> is pure virtual (line 33): the executor runs whatever the dynamic type
  of the task overrides it with. An execute body is modelled by the sequence of effects it
  performs on its worker thread: one insertion into \<^verbatim>\<open>std::cout\<close> per \<^verbatim>\<open><<\<close>, a sleep,
  an exception that leaves the body, or a computation that never returns.
\<close>

datatype effect =
    Print string
  | PrintEndl
  | SleepFor duration
  | Throw string
  | Diverge

text \<open>
  The dynamic type of a task, with the members its subclass adds: \<^verbatim>\<open>PrintTask\<close> (line 37),
  \<^verbatim>\<open>WaitTask\<close> with \<^verbatim>\<open>seconds\<close> (line 45), \<^verbatim>\<open>ComputeTask\<close> with \<^verbatim>\<open>limit\<close> (line 57), and any
  further subclass of \<^verbatim>\<open>Task\<close>, given by the effects of its \<^verbatim>\<open>execute\<close>.
\<close>

datatype body =
    PrintBody
  | WaitBody cint
  | ComputeBody cint
  | OtherBody "effect list"

record task =
  name :: string
  delayMs :: cint
  repeating :: bool
  repeatIntervalMs :: cint
  body :: body

text \<open>The constructors: \<^verbatim>\<open>Task(_name)\<close> with the member initialisers of lines 14-16.\<close>

definition Task :: "string \<Rightarrow> body \<Rightarrow> task" where
  "Task n b = \<lparr>name = n, delayMs = 0, repeating = False, repeatIntervalMs = 0, body = b\<rparr>"

definition PrintTask :: "string \<Rightarrow> task" where
  "PrintTask n = Task n PrintBody"

definition WaitTask :: "cint \<Rightarrow> string \<Rightarrow> task" where
  "WaitTask sec n = Task n (WaitBody sec)"

definition ComputeTask :: "cint \<Rightarrow> string \<Rightarrow> task" where
  "ComputeTask n nm = Task nm (ComputeBody n)"

definition getName :: "task \<Rightarrow> string" where
  "getName t = name t"

definition setDelay :: "cint \<Rightarrow> task \<Rightarrow> task" where
  "setDelay ms t = t\<lparr>delayMs := ms\<rparr>"

definition getDelay :: "task \<Rightarrow> cint" where
  "getDelay t = delayMs t"

definition setRepeating :: "bool \<Rightarrow> task \<Rightarrow> task" where
  "setRepeating flag t = t\<lparr>repeating := flag\<rparr>"

definition isRepeating :: "task \<Rightarrow> bool" where
  "isRepeating t = repeating t"

definition setRepeatInterval :: "cint \<Rightarrow> task \<Rightarrow> task" where
  "setRepeatInterval ms t = t\<lparr>repeatIntervalMs := ms\<rparr>"

definition getRepeatInterval :: "task \<Rightarrow> cint" where
  "getRepeatInterval t = repeatIntervalMs t"

subsection \<open>Printing an int\<close>

text \<open>\<^verbatim>\<open>std::cout << n\<close> for an \<^verbatim>\<open>int\<close>: the decimal digits, after a minus sign when negative.\<close>

definition digit :: "int \<Rightarrow> char" where
  "digit d = ''0123456789'' ! nat d"

function show_digits :: "int \<Rightarrow> string" where
  "show_digits k = (if k < 10 then [digit k] else show_digits (k div 10) @ [digit (k mod 10)])"
  by pat_completeness auto
termination
  by (relation "measure nat") auto

declare show_digits.simps [simp del]

definition show_int :: "int \<Rightarrow> string" where
  "show_int k = (if k < 0 then CHR ''-'' # show_digits (- k) else show_digits k)"

subsection \<open>The summation loop of ComputeTask (lines 64-66)\<close>

text \<open>
  \<^verbatim>\<open>int sum = 0; for (int i = 1; i <= limit; ++i) sum += i;\<close> on 32-bit ints. With
  \<open>limit = 2147483647\<close> the test \<^verbatim>\<open>i <= limit\<close> never fails, so the loop is a partial
  function: \<open>None\<close> is the loop that does not return.
\<close>

partial_function (option) sum_loop :: "cint \<Rightarrow> cint \<Rightarrow> cint \<Rightarrow> cint option" where
  "sum_loop limit i acc = (if i <=s limit then sum_loop limit (i + 1) (acc + i) else Some acc)"

declare sum_loop.simps [code]

definition ComputeTask_sum :: "cint \<Rightarrow> cint option" where
  "ComputeTask_sum limit = sum_loop limit 1 0"

subsection \<open>The execute overrides (lines 40-43, 51-54, 63-69)\<close>

fun execute_body :: "body \<Rightarrow> effect list" where
  "execute_body PrintBody = [Print ''PrintTask: Hello World'', PrintEndl]"
| "execute_body (WaitBody seconds) =
     [Print ''WaitTask: Sleeping for '', Print (show_int (sint seconds)), Print '' seconds'',
      PrintEndl, SleepFor (Seconds seconds)]"
| "execute_body (ComputeBody limit) =
     (case ComputeTask_sum limit of
        None \<Rightarrow> [Diverge]
      | Some s \<Rightarrow> [Print ''ComputeTask: Sum = '', Print (show_int (sint s)), PrintEndl])"
| "execute_body (OtherBody effs) = effs"

definition execute :: "task \<Rightarrow> effect list" where
  "execute t = execute_body (body t)"

section \<open>The executor (lines 73-125)\<close>

text \<open>
  The three members of \<^verbatim>\<open>TaskExecutor\<close>. \<open>coutMutex\<close> is \<open>None\<close> when the mutex is free and
  \<open>Some i\<close> when worker \<open>i\<close> holds it.
\<close>

record executor =
  tasks :: "task list"
  stopRequested :: bool
  coutMutex :: "nat option"

definition TaskExecutor :: executor where
  "TaskExecutor = \<lparr>tasks = [], stopRequested = False, coutMutex = None\<rparr>"

definition addTask :: "task \<Rightarrow> executor \<Rightarrow> executor" where
  "addTask t ex = ex\<lparr>tasks := tasks ex @ [t]\<rparr>"

definition requestStop :: "executor \<Rightarrow> executor" where
  "requestStop ex = ex\<lparr>stopRequested := True\<rparr>"

subsection \<open>Workers\<close>

text \<open>
  What a worker thread does that another thread can observe, in the order it does it:
  the insertions into \<^verbatim>\<open>std::cout\<close> (\<open>StartTag\<close> is the insertion of \<^verbatim>\<open>"[START] "\<close> of
  line 95, \<open>EndTag\<close> that of \<^verbatim>\<open>"[END] "\<close> of line 115, \<open>Str\<close> any other string or number,
  \<open>Endl\<close> a \<^verbatim>\<open>std::endl\<close>), the calls of \<^verbatim>\<open>task->execute()\<close>, the sleeps, and an exception
  leaving the thread's function.
\<close>

datatype event =
    StartTag
  | EndTag
  | Str string
  | Endl
  | Invoke
  | Sleep duration
  | Fault string

text \<open>The two calls of \<^verbatim>\<open>task->execute()\<close>: line 110, and line 105 inside the loop.\<close>

datatype call_site = Once | InLoop

text \<open>
  The program counter of a worker: the next atomic action of the lambda of lines 92-117.
  The lambda has no handler. A worker is at \<open>Terminating\<close> once an exception thrown by
  \<^verbatim>\<open>execute\<close> has left the function of its thread: \<^verbatim>\<open>std::terminate\<close> has been called on
  that thread and has not ended the process yet. The other threads run on meanwhile.
\<close>

datatype pc =
    LockStart
  | PutStartTag
  | PutStartName
  | PutStartEndl
  | UnlockStart
  | CheckDelay
  | CheckRepeating
  | LoopTest
  | Executing call_site "effect list"
  | IntervalSleep
  | LockEnd
  | PutEndTag
  | PutEndName
  | PutEndEndl
  | UnlockEnd
  | Done
  | Terminating

text \<open>
  A running \<^verbatim>\<open>runAll\<close>: the executor, one program counter per spawned worker, everything
  the workers have done so far (each event with the index of its worker), and whether the
  \<^verbatim>\<open>abort\<close> of \<^verbatim>\<open>std::terminate\<close> has ended the process.
\<close>

record config =
  exec :: executor
  pcs :: "pc list"
  trace :: "(nat \<times> event) list"
  terminated :: bool

definition emit :: "nat \<Rightarrow> event \<Rightarrow> config \<Rightarrow> config" where
  "emit i e c = c\<lparr>trace := trace c @ [(i, e)]\<rparr>"

definition goto :: "nat \<Rightarrow> pc \<Rightarrow> config \<Rightarrow> config" where
  "goto i p c = c\<lparr>pcs := (pcs c)[i := p]\<rparr>"

definition lock :: "nat \<Rightarrow> config \<Rightarrow> config" where
  "lock i c = c\<lparr>exec := (exec c)\<lparr>coutMutex := Some i\<rparr>\<rparr>"

definition unlock :: "config \<Rightarrow> config" where
  "unlock c = c\<lparr>exec := (exec c)\<lparr>coutMutex := None\<rparr>\<rparr>"

text \<open>
  What one atomic action of a worker does to the state it shares with the other threads:
  it takes \<^verbatim>\<open>coutMutex\<close> (the \<^verbatim>\<open>lock_guard\<close> of lines 94 and 114), gives it back (the end
  of the guard's scope), does something the trace records, does nothing another thread can
  see, or ends the process (the \<^verbatim>\<open>abort\<close> that \<^verbatim>\<open>std::terminate\<close> calls).
\<close>

datatype act = Acquire | Release | Emit event | Silent | Abort

text \<open>
  The lambda of lines 92-117, one atomic action at a time: where the worker of task \<open>t\<close>
  goes from its program counter, and what the action is. \<open>stop\<close> is what
  \<^verbatim>\<open>stopRequested.load()\<close> returns; only the loop test of line 104 reads it. The call of
  \<^verbatim>\<open>execute\<close> is one action with the test that leads to it (line 103, or line 104): the
  worker touches no shared state between the two. A sleep takes no part in the
  interleaving beyond its place in the worker's own order. A body that diverges stays
  where it is. A \<^verbatim>\<open>throw\<close> inside \<^verbatim>\<open>execute\<close> is caught nowhere: the exception leaves the
  lambda (the trace records the fault) and the thread goes on inside \<^verbatim>\<open>std::terminate\<close>,
  whose next action on this thread ends the process.
\<close>

fun advance :: "task \<Rightarrow> bool \<Rightarrow> pc \<Rightarrow> pc \<times> act" where
  "advance t stop LockStart = (PutStartTag, Acquire)"
| "advance t stop PutStartTag = (PutStartName, Emit StartTag)"
| "advance t stop PutStartName = (PutStartEndl, Emit (Str (getName t)))"
| "advance t stop PutStartEndl = (UnlockStart, Emit Endl)"
| "advance t stop UnlockStart = (CheckDelay, Release)"
| "advance t stop CheckDelay =
     (CheckRepeating,
      if 0 <s getDelay t then Emit (Sleep (Milliseconds (getDelay t))) else Silent)"
| "advance t stop CheckRepeating =
     (if isRepeating t then (LoopTest, Silent)
      else (Executing Once (execute t), Emit Invoke))"
| "advance t stop LoopTest =
     (if stop then (LockEnd, Silent)
      else (Executing InLoop (execute t), Emit Invoke))"
| "advance t stop (Executing site (Print s # es)) = (Executing site es, Emit (Str s))"
| "advance t stop (Executing site (PrintEndl # es)) = (Executing site es, Emit Endl)"
| "advance t stop (Executing site (SleepFor d # es)) = (Executing site es, Emit (Sleep d))"
| "advance t stop (Executing site (Throw reason # es)) = (Terminating, Emit (Fault reason))"
| "advance t stop (Executing site (Diverge # es)) = (Executing site (Diverge # es), Silent)"
| "advance t stop (Executing Once []) = (LockEnd, Silent)"
| "advance t stop (Executing InLoop []) = (IntervalSleep, Silent)"
| "advance t stop IntervalSleep =
     (LoopTest, Emit (Sleep (Milliseconds (getRepeatInterval t))))"
| "advance t stop LockEnd = (PutEndTag, Acquire)"
| "advance t stop PutEndTag = (PutEndName, Emit EndTag)"
| "advance t stop PutEndName = (PutEndEndl, Emit (Str (getName t)))"
| "advance t stop PutEndEndl = (UnlockEnd, Emit Endl)"
| "advance t stop UnlockEnd = (Done, Release)"
| "advance t stop Done = (Done, Silent)"
| "advance t stop Terminating = (Terminating, Abort)"

text \<open>
  The action of worker \<open>i\<close> on the shared state, and its move to \<open>p\<close>. A worker that
  finds the mutex taken waits where it is. The process ends when the thread inside
  \<^verbatim>\<open>std::terminate\<close> reaches \<^verbatim>\<open>abort\<close>; until then every other thread can act.
\<close>

fun perform :: "nat \<Rightarrow> pc \<Rightarrow> act \<Rightarrow> config \<Rightarrow> config" where
  "perform i p Acquire c = (if coutMutex (exec c) = None then goto i p (lock i c) else c)"
| "perform i p Release c = goto i p (unlock c)"
| "perform i p (Emit e) c = goto i p (emit i e c)"
| "perform i p Silent c = goto i p c"
| "perform i p Abort c = (goto i p c)\<lparr>terminated := True\<rparr>"

definition worker :: "nat \<Rightarrow> config \<Rightarrow> config" where
  "worker i c =
     (case advance (tasks (exec c) ! i) (stopRequested (exec c)) (pcs c ! i) of
        (p, a) \<Rightarrow> perform i p a c)"

text \<open>
  What the threads of the process do next: worker \<open>i\<close> takes one action, or the
  orchestrator's thread calls \<^verbatim>\<open>requestStop\<close>. A schedule is a list of such choices; a
  worker that has not been given a turn yet is a thread not yet spawned or not yet run.
  Once the process has ended no thread does anything.
\<close>

datatype action = Worker nat | RequestStop

definition step :: "action \<Rightarrow> config \<Rightarrow> config" where
  "step a c =
     (if terminated c then c
      else case a of
        RequestStop \<Rightarrow> c\<lparr>exec := requestStop (exec c)\<rparr>
      | Worker i \<Rightarrow>
          (if i < length (pcs c) \<and> i < length (tasks (exec c))
           then worker i c else c))"

fun run :: "action list \<Rightarrow> config \<Rightarrow> config" where
  "run [] c = c"
| "run (a # sched) c = run sched (step a c)"

text \<open>\<^verbatim>\<open>runAll\<close>: one worker per registered task (lines 91-118), then the joins.\<close>

definition spawn :: "executor \<Rightarrow> config" where
  "spawn ex = \<lparr>exec = ex, pcs = map (\<lambda>t. LockStart) (tasks ex), trace = [], terminated = False\<rparr>"

definition runAll :: "action list \<Rightarrow> executor \<Rightarrow> config" where
  "runAll sched ex = run sched (spawn ex)"

text \<open>\<^verbatim>\<open>runAll\<close> returns once every worker has been joined (lines 120-123).\<close>

definition returned :: "config \<Rightarrow> bool" where
  "returned c = (\<not> terminated c \<and> list_all (\<lambda>p. p = Done) (pcs c))"

section \<open>What a run shows\<close>

text \<open>The events of an action: what \<open>perform\<close> appends to the trace.\<close>

fun events_of :: "act \<Rightarrow> event list" where
  "events_of (Emit e) = [e]"
| "events_of a = []"

text \<open>The characters an event puts on \<^verbatim>\<open>std::cout\<close>, and the text of a whole run.\<close>

fun render :: "event \<Rightarrow> string" where
  "render StartTag = ''[START] ''"
| "render EndTag = ''[END] ''"
| "render (Str s) = s"
| "render Endl = [CHR 0x0A]"
| "render e = []"

definition stdout :: "config \<Rightarrow> string" where
  "stdout c = concat (map (\<lambda>(i, e). render e) (trace c))"

text \<open>
  The insertions into \<^verbatim>\<open>std::cout\<close> cut into lines, each insertion with the worker that
  made it: a line ends with the \<^verbatim>\<open>std::endl\<close> that closes it.
\<close>

fun is_output :: "event \<Rightarrow> bool" where
  "is_output StartTag = True"
| "is_output EndTag = True"
| "is_output (Str s) = True"
| "is_output Endl = True"
| "is_output e = False"

fun cut_lines :: "(nat \<times> event) list \<Rightarrow> (nat \<times> event) list \<Rightarrow> (nat \<times> event) list list" where
  "cut_lines cur [] = (if cur = [] then [] else [cur])"
| "cut_lines cur ((i, Endl) # xs) = (cur @ [(i, Endl)]) # cut_lines [] xs"
| "cut_lines cur (x # xs) = cut_lines (cur @ [x]) xs"

definition captured_lines :: "config \<Rightarrow> (nat \<times> event) list list" where
  "captured_lines c = cut_lines [] (filter (\<lambda>(i, e). is_output e) (trace c))"

text \<open>The workers that wrote into a line.\<close>

definition writers :: "(nat \<times> event) list \<Rightarrow> nat list" where
  "writers l = remdups (map fst l)"

text \<open>The position of the first occurrence of \<open>x\<close> in a list (its length when there is none).\<close>

definition first_index :: "'a \<Rightarrow> 'a list \<Rightarrow> nat" where
  "first_index x xs = length (takeWhile (\<lambda>y. y \<noteq> x) xs)"

subsection \<open>Invariants of a worker\<close>

text \<open>
  A property of every worker's program counter and of the trace. The invariants below
  are of this form: a worker's own action keeps them, and so does an event of another
  worker.
\<close>

definition holds :: "(nat \<Rightarrow> pc \<Rightarrow> (nat \<times> event) list \<Rightarrow> bool) \<Rightarrow> config \<Rightarrow> bool" where
  "holds P c = (\<forall>i<length (pcs c). P i (pcs c ! i) (trace c))"

text \<open>Whether a worker at \<open>p\<close> has put its start tag, and its end tag.\<close>

fun started :: "pc \<Rightarrow> bool" where
  "started LockStart = False"
| "started PutStartTag = False"
| "started p = True"

fun ended :: "pc \<Rightarrow> bool" where
  "ended PutEndName = True"
| "ended PutEndEndl = True"
| "ended UnlockEnd = True"
| "ended Done = True"
| "ended p = False"

definition tags_ok :: "nat \<Rightarrow> bool \<Rightarrow> bool \<Rightarrow> (nat \<times> event) list \<Rightarrow> bool" where
  "tags_ok i s f tr =
     (count_list tr (i, StartTag) = (if s then 1 else 0) \<and>
      count_list tr (i, EndTag) = (if f then 1 else 0) \<and>
      (if f then s \<and> first_index (i, StartTag) tr < first_index (i, EndTag) tr else True))"

definition events_ok :: "nat \<Rightarrow> pc \<Rightarrow> (nat \<times> event) list \<Rightarrow> bool" where
  "events_ok i p tr = tags_ok i (started p) (ended p) tr"

text \<open>Whether \<open>p\<close> lies inside the loop of lines 104-108, and whether it lies behind line 103.\<close>

fun in_loop :: "pc \<Rightarrow> bool" where
  "in_loop LoopTest = True"
| "in_loop (Executing InLoop es) = True"
| "in_loop IntervalSleep = True"
| "in_loop p = False"

fun invoked :: "pc \<Rightarrow> bool" where
  "invoked LockStart = False"
| "invoked PutStartTag = False"
| "invoked PutStartName = False"
| "invoked PutStartEndl = False"
| "invoked UnlockStart = False"
| "invoked CheckDelay = False"
| "invoked CheckRepeating = False"
| "invoked p = True"

definition once_ok :: "task list \<Rightarrow> nat \<Rightarrow> pc \<Rightarrow> (nat \<times> event) list \<Rightarrow> bool" where
  "once_ok T i p tr =
     (if isRepeating (T ! i) then True
      else \<not> in_loop p \<and> count_list tr (i, Invoke) = (if invoked p then 1 else 0))"

definition frozen :: "task list \<Rightarrow> (nat \<Rightarrow> nat) \<Rightarrow> nat \<Rightarrow> pc \<Rightarrow> (nat \<times> event) list \<Rightarrow> bool" where
  "frozen T n i p tr =
     (if isRepeating (T ! i) then count_list tr (i, Invoke) = n i else True)"

text \<open>
  A worker is inside \<^verbatim>\<open>std::terminate\<close> exactly when a fault has left it, and the process
  has ended only if some worker is there.
\<close>

definition fault_ok :: "nat \<Rightarrow> pc \<Rightarrow> (nat \<times> event) list \<Rightarrow> bool" where
  "fault_ok i p tr = ((p = Terminating) = (\<exists>reason. (i, Fault reason) \<in> set tr))"

definition dead_inv :: "config \<Rightarrow> bool" where
  "dead_inv c = (terminated c \<longrightarrow> (\<exists>i<length (pcs c). pcs c ! i = Terminating))"


text \<open>What is left of the execute body a worker is in.\<close>

fun remaining :: "pc \<Rightarrow> effect list" where
  "remaining (Executing site es) = es"
| "remaining p = []"

text \<open>Whether the execute of a task has a \<^verbatim>\<open>throw\<close> in it.\<close>

fun is_throw :: "effect \<Rightarrow> bool" where
  "is_throw (Throw reason) = True"
| "is_throw e = False"

definition throws :: "task \<Rightarrow> bool" where
  "throws t = list_ex is_throw (execute t)"

text \<open>Whether the execute of a task runs forever.\<close>

fun is_diverge :: "effect \<Rightarrow> bool" where
  "is_diverge Diverge = True"
| "is_diverge e = False"

definition diverges :: "task \<Rightarrow> bool" where
  "diverges t = list_ex is_diverge (execute t)"

text \<open>
  A worker that is not inside \<^verbatim>\<open>std::terminate\<close>, and what it has before it is part of the
  execute of its task.
\<close>

definition intact :: "task list \<Rightarrow> nat \<Rightarrow> pc \<Rightarrow> (nat \<times> event) list \<Rightarrow> bool" where
  "intact T i p tr = (p \<noteq> Terminating \<and> set (remaining p) \<subseteq> set (execute (T ! i)))"

text \<open>Whether \<open>p\<close> lies between taking \<^verbatim>\<open>coutMutex\<close> and giving it back.\<close>

fun critical :: "pc \<Rightarrow> bool" where
  "critical PutStartTag = True"
| "critical PutStartName = True"
| "critical PutStartEndl = True"
| "critical UnlockStart = True"
| "critical PutEndTag = True"
| "critical PutEndName = True"
| "critical PutEndEndl = True"
| "critical UnlockEnd = True"
| "critical p = False"

definition mutex_inv :: "config \<Rightarrow> bool" where
  "mutex_inv c = (\<forall>i<length (pcs c). critical (pcs c ! i) \<longrightarrow> coutMutex (exec c) = Some i)"

text \<open>
  How many actions a worker inside the start or end block is from giving the mutex back,
  and how many a worker is from the call of line 110.
\<close>

fun to_release :: "pc \<Rightarrow> nat" where
  "to_release PutStartTag = 4"
| "to_release PutStartName = 3"
| "to_release PutStartEndl = 2"
| "to_release UnlockStart = 1"
| "to_release PutEndTag = 4"
| "to_release PutEndName = 3"
| "to_release PutEndEndl = 2"
| "to_release UnlockEnd = 1"
| "to_release p = 0"

fun to_invoke :: "pc \<Rightarrow> nat" where
  "to_invoke LockStart = 7"
| "to_invoke PutStartTag = 6"
| "to_invoke PutStartName = 5"
| "to_invoke PutStartEndl = 4"
| "to_invoke UnlockStart = 3"
| "to_invoke CheckDelay = 2"
| "to_invoke CheckRepeating = 1"
| "to_invoke p = 0"

text \<open>
  How many actions a worker is from its end once the stop is requested: a repeating worker
  leaves at the next loop test, a worker inside \<^verbatim>\<open>execute\<close> finishes the body first.
\<close>

definition after_start :: "task \<Rightarrow> nat" where
  "after_start t = (if isRepeating t then 7 else length (execute t) + 7)"

fun to_done :: "task \<Rightarrow> pc \<Rightarrow> nat" where
  "to_done t LockStart = after_start t + 6"
| "to_done t PutStartTag = after_start t + 5"
| "to_done t PutStartName = after_start t + 4"
| "to_done t PutStartEndl = after_start t + 3"
| "to_done t UnlockStart = after_start t + 2"
| "to_done t CheckDelay = after_start t + 1"
| "to_done t CheckRepeating = after_start t"
| "to_done t LoopTest = 6"
| "to_done t (Executing Once es) = length es + 6"
| "to_done t (Executing InLoop es) = length es + 8"
| "to_done t IntervalSleep = 7"
| "to_done t LockEnd = 5"
| "to_done t PutEndTag = 4"
| "to_done t PutEndName = 3"
| "to_done t PutEndEndl = 2"
| "to_done t UnlockEnd = 1"
| "to_done t Done = 0"
| "to_done t Terminating = 0"

text \<open>The worker that holds the mutex is inside its start or end block.\<close>

definition holder_inv :: "config \<Rightarrow> bool" where
  "holder_inv c =
     (case coutMutex (exec c) of None \<Rightarrow> True
      | Some h \<Rightarrow> h < length (pcs c) \<and> critical (pcs c ! h))"

subsection \<open>The program of main (lines 128-162) and other inputs\<close>

definition printTask :: task where
  "printTask = setRepeatInterval 500 (setRepeating True (setDelay 1000 (PrintTask ''Printer'')))"

definition waitTask :: task where
  "waitTask = setDelay 2000 (WaitTask 2 ''Waiter'')"

definition computeTask :: task where
  "computeTask = setDelay 3000 (ComputeTask 100 ''Calculator'')"

definition main_executor :: executor where
  "main_executor = addTask computeTask (addTask waitTask (addTask printTask TaskExecutor))"

text \<open>
  Pieces of a run of main, in the order the delays and intervals give when every sleep
  takes as long as it is asked to. At 0 ms the three workers put their start lines and go
  to sleep for their delays.
\<close>

definition starts :: "action list" where
  "starts =
     replicate 5 (Worker 0) @ replicate 5 (Worker 1) @ replicate 5 (Worker 2) @
     [Worker 0, Worker 1, Worker 2]"

text \<open>
  The printer: its first round (from line 103 to its first sleep of 500 ms), a later round
  (loop test, the line it prints, the sleep), and its way out once the stop is requested
  (loop test and end line).
\<close>

definition printer_first :: "action list" where
  "printer_first = replicate 6 (Worker 0)"

definition printer_round :: "action list" where
  "printer_round = replicate 5 (Worker 0)"

definition printer_exit :: "action list" where
  "printer_exit = replicate 6 (Worker 0)"

text \<open>
  The waiter: its execute up to the sleep of two seconds, and its return and end line. The
  calculator: its execute and end line.
\<close>

definition waiter_execute :: "action list" where
  "waiter_execute = replicate 6 (Worker 1)"

definition waiter_end :: "action list" where
  "waiter_end = replicate 6 (Worker 1)"

definition calculator_run :: "action list" where
  "calculator_run = replicate 10 (Worker 2)"

text \<open>
  A run of main to its end, no two workers writing at the same moment: the printer prints
  at 1000, 1500, ..., 5500 ms, the waiter runs at 2000 ms and ends at 4000 ms, the
  calculator runs at 3000 ms, the orchestrator requests the stop at 6000 ms and the printer
  leaves its loop.
\<close>

definition main_schedule :: "action list" where
  "main_schedule =
     starts @ printer_first @ printer_round @
     printer_round @ waiter_execute @ printer_round @
     printer_round @ calculator_run @ printer_round @
     printer_round @ waiter_end @ printer_round @ printer_round @ printer_round @
     [RequestStop] @ printer_exit"

text \<open>The printer has printed twice and sleeps when the orchestrator requests the stop.\<close>

definition stop_schedule :: "action list" where
  "stop_schedule = starts @ printer_first @ printer_round @ [RequestStop]"

text \<open>
  The run of main up to 2000 ms, when the printer's third round and the waiter's execute
  fall together: both enter \<^verbatim>\<open>execute\<close>, the waiter puts the first part of its line, the
  printer puts its line, the waiter puts the rest.
\<close>

definition interleaved_schedule :: "action list" where
  "interleaved_schedule =
     starts @ printer_first @ printer_round @
     [Worker 0, Worker 1, Worker 1, Worker 0, Worker 0, Worker 1, Worker 1, Worker 1]"

text \<open>
  The run of main up to 4000 ms, when the printer's seventh round and the waiter's end
  line fall together: the waiter holds \<^verbatim>\<open>coutMutex\<close> and has put its end tag when the
  printer, inside \<^verbatim>\<open>execute\<close>, puts its line.
\<close>

definition torn_schedule :: "action list" where
  "torn_schedule =
     starts @ printer_first @ printer_round @
     printer_round @ waiter_execute @ printer_round @
     printer_round @ calculator_run @ printer_round @
     [Worker 0, Worker 1, Worker 1, Worker 1, Worker 0, Worker 0, Worker 1, Worker 1]"

text \<open>
  The start of a run of main: the printer has put its start line, the waiter holds the
  mutex inside its own, the calculator finds the mutex taken.
\<close>

definition held_schedule :: "action list" where
  "held_schedule = replicate 5 (Worker 0) @ replicate 3 (Worker 1) @ [Worker 2]"

text \<open>
  \<^verbatim>\<open>requestStop\<close> called before \<^verbatim>\<open>runAll\<close>, and the run of main to its end: the printer
  wakes at 1000 ms and leaves at once, the waiter runs at 2000 ms, the calculator at 3000 ms,
  the waiter ends at 4000 ms.
\<close>

definition stopped_executor :: executor where
  "stopped_executor = requestStop main_executor"

definition stopped_schedule :: "action list" where
  "stopped_schedule =
     starts @ replicate 7 (Worker 0) @ waiter_execute @ calculator_run @ waiter_end"

text \<open>A task with a negative delay and a negative repeat interval.\<close>

definition negativeTask :: task where
  "negativeTask = setRepeatInterval (- 7) (setDelay (- 5) (PrintTask ''Negative''))"

text \<open>A subclass of \<^verbatim>\<open>Task\<close> whose \<^verbatim>\<open>execute\<close> throws.\<close>

definition faultyTask :: task where
  "faultyTask = Task ''Faulty'' (OtherBody [Throw ''boom''])"

definition faulty_executor :: executor where
  "faulty_executor = addTask faultyTask (addTask printTask TaskExecutor)"

text \<open>
  The printer of main beside the throwing task: both put their start lines, the throwing
  task (no delay) calls its \<^verbatim>\<open>execute\<close> and the exception leaves worker 1. Then the
  printer goes to sleep for its delay, \<^verbatim>\<open>std::terminate\<close> ends the process, and the
  printer gets twenty turns more.
\<close>

definition thrown_schedule :: "action list" where
  "thrown_schedule = replicate 5 (Worker 0) @ replicate 8 (Worker 1)"

definition faulty_schedule :: "action list" where
  "faulty_schedule = thrown_schedule @ [Worker 0] @ [Worker 1] @ replicate 20 (Worker 0)"

text \<open>
  The throwing task before a non-repeating print task. In the first run the exception
  leaves worker 0 and \<^verbatim>\<open>std::terminate\<close> ends the process before worker 1 has had a turn.
  In the second run worker 1 gets its turns between the two: it puts its start line,
  executes and puts its end line, and then the process ends.
\<close>

definition preempted_executor :: executor where
  "preempted_executor = addTask (PrintTask ''Once'') (addTask faultyTask TaskExecutor)"

definition preempted_schedule :: "action list" where
  "preempted_schedule = replicate 9 (Worker 0) @ replicate 20 (Worker 1)"

definition overtaken_schedule :: "action list" where
  "overtaken_schedule = replicate 8 (Worker 0) @ replicate 15 (Worker 1) @ [Worker 0]"

text \<open>The throwing task alone.\<close>

definition lone_executor :: executor where
  "lone_executor = addTask faultyTask TaskExecutor"

definition lone_schedule :: "action list" where
  "lone_schedule = replicate 9 (Worker 0)"

text \<open>
  Two tasks without a delay, and a run in which the first worker runs to its end before
  the second starts.
\<close>

definition quick_executor :: executor where
  "quick_executor = addTask (ComputeTask 3 ''Quick'') (addTask (PrintTask ''Once'') TaskExecutor)"

definition quick_schedule :: "action list" where
  "quick_schedule = replicate 15 (Worker 0) @ replicate 16 (Worker 1)"

section \<open>The summation loop\<close>

lemma sint_succ: "sint (i::cint) < 2147483647 \<Longrightarrow> sint (i + 1) = sint i + 1"
  using sint_ge [of i]
  by (simp add: sint_word_ariths signed_take_bit_int_eq_self)

text \<open>
  Below the largest int the loop returns, and what it returns is the accumulator plus the
  integers from \<open>i\<close> to \<open>limit\<close>, as a 32-bit word.
\<close>

lemma sum_loop_returns:
  "nat (sint limit + 1 - sint i) = n \<Longrightarrow> sint limit < 2147483647 \<Longrightarrow>
   sint i \<le> sint limit + 1 \<Longrightarrow>
   sum_loop limit i s = Some (s + word_of_int (\<Sum>k = sint i..sint limit. k))"
proof (induction n arbitrary: i s)
  case 0
  then have "\<not> i <=s limit" by (simp add: word_sle_eq)
  moreover have "{sint i..sint limit} = {}" using 0 by simp
  ultimately show ?case by (subst sum_loop.simps) simp
next
  case (Suc n)
  then have le: "sint i \<le> sint limit" by simp
  then have si: "sint (i + 1) = sint i + 1" using Suc.prems(2) by (simp add: sint_succ)
  have "sum_loop limit (i + 1) (s + i) =
      Some ((s + i) + word_of_int (\<Sum>k = sint (i + 1)..sint limit. k))"
    using Suc le si by (intro Suc.IH) simp_all
  moreover have "(\<Sum>k = sint i..sint limit. k) = sint i + (\<Sum>k = sint (i + 1)..sint limit. k)"
  proof -
    have "{sint i..sint limit} = insert (sint i) {sint i + 1..sint limit}" using le by auto
    then show ?thesis using si by simp
  qed
  ultimately show ?case using le
    by (subst sum_loop.simps) (simp add: word_sle_eq add.assoc)
qed

text \<open>With the largest int as limit the loop does not return.\<close>

lemma sum_loop_Some_limit:
  assumes "sum_loop limit i s = Some r"
  shows "sint limit \<noteq> 2147483647"
proof (rule sum_loop.raw_induct [where P = "\<lambda>l j a res. sint l \<noteq> 2147483647", OF _ assms])
  fix f l j a res
  assume IH: "\<And>l j a res. f l j a = Some res \<Longrightarrow> sint (l::cint) \<noteq> 2147483647"
    and eq: "(if j <=s l then f l (j + 1) (a + j) else Some a) = Some res"
  show "sint l \<noteq> 2147483647"
  proof (cases "j <=s l")
    case True
    with eq IH show ?thesis by simp
  next
    case False
    then show ?thesis using sint_lt [of j] by (auto simp: word_sle_eq)
  qed
qed

lemma sum_loop_diverges: "sint limit = 2147483647 \<Longrightarrow> sum_loop limit i s = None"
  using sum_loop_Some_limit [of limit i s] by (cases "sum_loop limit i s") auto

lemma sint_word_of_int_small:
  "0 \<le> k \<Longrightarrow> k < 2147483648 \<Longrightarrow> sint (word_of_int k :: cint) = k"
  by (simp add: sint_sbintrunc' signed_take_bit_int_eq_self)

lemma Sum_upto_bound:
  assumes "L \<le> (65535::int)"
  shows "0 \<le> (\<Sum>k = 1..L. k)" and "(\<Sum>k = 1..L. k) < 2147483648"
proof -
  show "0 \<le> (\<Sum>k = 1..L. k)" by (rule sum_nonneg) simp
  have "(\<Sum>k = 1..L. k) \<le> (\<Sum>k = 1..65535. k)"
    using assms by (intro sum_mono2) auto
  also have "\<dots> = 2147450880" by (simp add: Sum_Icc_int)
  finally show "(\<Sum>k = 1..L. k) < 2147483648" by simp
qed

lemma ComputeTask_sum_small:
  assumes "sint limit \<le> 65535"
  shows "map_option sint (ComputeTask_sum limit) = Some (\<Sum>k = 1..sint limit. k)"
proof (cases "0 \<le> sint limit")
  case True
  have "sum_loop limit 1 0 = Some (0 + word_of_int (\<Sum>k = sint (1::cint)..sint limit. k))"
    using True assms by (intro sum_loop_returns [OF refl]) simp_all
  then show ?thesis
    using Sum_upto_bound [OF assms]
    by (simp add: ComputeTask_sum_def sint_word_of_int_small del: of_int_sum)
next
  case False
  then have "\<not> 1 <=s limit" by (simp add: word_sle_eq)
  then have "sum_loop limit 1 0 = Some 0" by (subst sum_loop.simps) simp
  then show ?thesis using False by (simp add: ComputeTask_sum_def)
qed

lemma show_int_5050: "show_int 5050 = ''5050''"
  by (simp add: show_int_def show_digits.simps digit_def)

section \<open>Steps and runs\<close>

lemmas step_defs = goto_def emit_def lock_def unlock_def

lemma perform_shape:
  "perform i p a c = c \<or>
   (pcs (perform i p a c) = (pcs c)[i := p] \<and>
    trace (perform i p a c) = trace c @ map (Pair i) (events_of a))"
  by (cases a) (simp_all add: step_defs)

lemma perform_frame:
  "tasks (exec (perform i p a c)) = tasks (exec c)"
  "stopRequested (exec (perform i p a c)) = stopRequested (exec c)"
  "length (pcs (perform i p a c)) = length (pcs c)"
  by (cases a; simp add: step_defs)+

lemma step_frame:
  "tasks (exec (step x c)) = tasks (exec c)"
  "length (pcs (step x c)) = length (pcs c)"
  by (cases x; simp add: step_def worker_def perform_frame requestStop_def split: prod.split)+

lemma step_stop: "stopRequested (exec c) \<Longrightarrow> stopRequested (exec (step x c))"
  by (cases x; simp add: step_def worker_def perform_frame requestStop_def split: prod.split)

lemma step_terminated: "terminated c \<Longrightarrow> step x c = c"
  by (simp add: step_def)

lemma run_terminated: "terminated c \<Longrightarrow> run sched c = c"
  by (induction sched arbitrary: c) (simp_all add: step_terminated)

lemma run_append: "run (xs @ ys) c = run ys (run xs c)"
  by (induction xs arbitrary: c) simp_all

lemma run_frame:
  "tasks (exec (run sched c)) = tasks (exec c)"
  "length (pcs (run sched c)) = length (pcs c)"
  by (induction sched arbitrary: c; simp add: step_frame)+

lemma run_stop: "stopRequested (exec c) \<Longrightarrow> stopRequested (exec (run sched c))"
  by (induction sched arbitrary: c) (simp_all add: step_stop)

lemma step_preserves:
  assumes loc: "\<And>i p a. i < length (pcs c) \<Longrightarrow> i < length (tasks (exec c)) \<Longrightarrow>
      P i (pcs c ! i) (trace c) \<Longrightarrow>
      advance (tasks (exec c) ! i) (stopRequested (exec c)) (pcs c ! i) = (p, a) \<Longrightarrow>
      P i p (trace c @ map (Pair i) (events_of a))"
    and oth: "\<And>i j e p tr. P i p tr \<Longrightarrow> j \<noteq> i \<Longrightarrow> P i p (tr @ [(j, e)])"
    and inv: "holds P c"
  shows "holds P (step x c)"
proof (cases x)
  case RequestStop
  then show ?thesis using inv by (simp add: step_def holds_def)
next
  case (Worker j)
  show ?thesis
  proof (cases "terminated c \<or> \<not> (j < length (pcs c) \<and> j < length (tasks (exec c)))")
    case True
    then show ?thesis using inv Worker by (auto simp: step_def)
  next
    case False
    obtain p a where adv: "advance (tasks (exec c) ! j) (stopRequested (exec c)) (pcs c ! j) = (p, a)"
      by (cases "advance (tasks (exec c) ! j) (stopRequested (exec c)) (pcs c ! j)")
    have st: "step x c = perform j p a c"
      using False Worker adv by (simp add: step_def worker_def)
    from perform_shape [of j p a c] show ?thesis
    proof
      assume "perform j p a c = c"
      then show ?thesis using inv st by simp
    next
      assume sh: "pcs (perform j p a c) = (pcs c)[j := p] \<and>
        trace (perform j p a c) = trace c @ map (Pair j) (events_of a)"
      have mine: "P j p (trace c @ map (Pair j) (events_of a))"
        using loc [of j p a] False adv inv by (simp add: holds_def)
      have others: "P i (pcs c ! i) (trace c @ map (Pair j) (events_of a))"
        if "i < length (pcs c)" "i \<noteq> j" for i
      proof -
        have "P i (pcs c ! i) (trace c)" using inv that by (simp add: holds_def)
        then show ?thesis using oth [of i "pcs c ! i" "trace c" j] that
          by (cases a) auto
      qed
      show ?thesis
        unfolding holds_def st
      proof (intro allI impI)
        fix i assume "i < length (pcs (perform j p a c))"
        then have i: "i < length (pcs c)" using sh by simp
        show "P i (pcs (perform j p a c) ! i) (trace (perform j p a c))"
          using sh i mine others [of i] by (cases "i = j") simp_all
      qed
    qed
  qed
qed

lemma run_preserves:
  assumes loc: "\<And>i p p' a stop tr. i < length T \<Longrightarrow> (S \<longrightarrow> stop) \<Longrightarrow> P i p tr \<Longrightarrow>
      advance (T ! i) stop p = (p', a) \<Longrightarrow> P i p' (tr @ map (Pair i) (events_of a))"
    and oth: "\<And>i j e p tr. P i p tr \<Longrightarrow> j \<noteq> i \<Longrightarrow> P i p (tr @ [(j, e)])"
    and T: "tasks (exec c) = T"
    and S: "S \<longrightarrow> stopRequested (exec c)"
    and inv: "holds P c"
  shows "holds P (run sched c)"
  using T S inv
proof (induction sched arbitrary: c)
  case Nil
  then show ?case by simp
next
  case (Cons x sched)
  have "holds P (step x c)"
    using Cons.prems by (intro step_preserves loc oth) auto
  moreover have "tasks (exec (step x c)) = T" using Cons.prems by (simp add: step_frame)
  moreover have "S \<longrightarrow> stopRequested (exec (step x c))" using Cons.prems by (simp add: step_stop)
  ultimately show ?case using Cons.IH by simp
qed

lemma requestStop_idem: "requestStop (requestStop ex) = requestStop ex"
  by (simp add: requestStop_def)

lemma requestStop_funpow: "0 < N \<Longrightarrow> (requestStop ^^ N) ex = requestStop ex"
proof (induction N)
  case 0
  then show ?case by simp
next
  case (Suc N)
  then show ?case by (cases "N = 0") (simp_all add: requestStop_idem)
qed

lemma step_RequestStop_idem: "step RequestStop (step RequestStop c) = step RequestStop c"
  by (simp add: step_def requestStop_def)

lemma run_replicate_RequestStop: "0 < N \<Longrightarrow> run (replicate N RequestStop) c = step RequestStop c"
proof (induction N arbitrary: c)
  case 0
  then show ?case by simp
next
  case (Suc N)
  show ?case
  proof (cases "N = 0")
    case True
    then show ?thesis by simp
  next
    case False
    then have "run (replicate N RequestStop) (step RequestStop c) = step RequestStop (step RequestStop c)"
      using Suc.IH by simp
    then show ?thesis by (simp add: step_RequestStop_idem)
  qed
qed

lemma runAll_frame:
  "tasks (exec (runAll sched ex)) = tasks ex"
  "length (pcs (runAll sched ex)) = length (tasks ex)"
  by (simp_all add: runAll_def run_frame spawn_def)

lemma returned_Done: "returned c \<Longrightarrow> i < length (pcs c) \<Longrightarrow> pcs c ! i = Done"
  by (simp add: returned_def list_all_length)

section \<open>Start and end tags\<close>

lemma first_index_append_in: "x \<in> set xs \<Longrightarrow> first_index x (xs @ ys) = first_index x xs"
  by (simp add: first_index_def)

lemma first_index_append_notin: "x \<notin> set xs \<Longrightarrow> first_index x (xs @ [x]) = length xs"
  unfolding first_index_def by (induction xs) auto

lemma first_index_less_length: "x \<in> set xs \<Longrightarrow> first_index x xs < length xs"
  unfolding first_index_def by (induction xs) auto

lemma in_set_count: "count_list xs x = Suc 0 \<Longrightarrow> x \<in> set xs"
  using count_list_0_iff [of xs x] by auto

lemma notin_set_count: "count_list xs x = 0 \<Longrightarrow> x \<notin> set xs"
  by (simp add: count_list_0_iff)

lemma tags_ok_append:
  assumes "x \<noteq> (i, StartTag)" "x \<noteq> (i, EndTag)"
  shows "tags_ok i s f (tr @ [x]) = tags_ok i s f tr"
proof (cases f)
  case False
  then show ?thesis using assms by (simp add: tags_ok_def)
next
  case True
  show ?thesis
  proof (cases "count_list tr (i, StartTag) = Suc 0 \<and> count_list tr (i, EndTag) = Suc 0")
    case False
    then show ?thesis using assms True by (auto simp: tags_ok_def)
  next
    case c: True
    then have "(i, StartTag) \<in> set tr" "(i, EndTag) \<in> set tr" by (simp_all add: in_set_count)
    then have "first_index (i, StartTag) (tr @ [x]) = first_index (i, StartTag) tr"
      "first_index (i, EndTag) (tr @ [x]) = first_index (i, EndTag) tr"
      by (simp_all add: first_index_append_in)
    then show ?thesis using assms True by (simp add: tags_ok_def)
  qed
qed

lemma tags_ok_start: "tags_ok i False False tr \<Longrightarrow> tags_ok i True False (tr @ [(i, StartTag)])"
  by (simp add: tags_ok_def)

lemma tags_ok_end:
  assumes "tags_ok i True False tr"
  shows "tags_ok i True True (tr @ [(i, EndTag)])"
proof -
  from assms have s: "count_list tr (i, StartTag) = Suc 0" and e: "count_list tr (i, EndTag) = 0"
    by (simp_all add: tags_ok_def)
  have sin: "(i, StartTag) \<in> set tr" using s by (rule in_set_count)
  have enot: "(i, EndTag) \<notin> set tr" using e by (rule notin_set_count)
  have "first_index (i, StartTag) (tr @ [(i, EndTag)]) = first_index (i, StartTag) tr"
    using sin by (rule first_index_append_in)
  moreover have "first_index (i, EndTag) (tr @ [(i, EndTag)]) = length tr"
    using enot by (rule first_index_append_notin)
  moreover have "first_index (i, StartTag) tr < length tr"
    using sin by (rule first_index_less_length)
  ultimately show ?thesis using s e by (simp add: tags_ok_def)
qed

lemma events_ok_other:
  "events_ok i p tr \<Longrightarrow> j \<noteq> i \<Longrightarrow> events_ok i p (tr @ [(j, e)])"
  by (simp add: events_ok_def tags_ok_append)

lemma events_ok_advance:
  assumes "events_ok i p tr" "advance t stop p = (p', a)"
  shows "events_ok i p' (tr @ map (Pair i) (events_of a))"
  using assms
  by (cases "(t, stop, p)" rule: advance.cases)
     (auto simp: events_ok_def tags_ok_append tags_ok_start tags_ok_end split: if_splits)

lemma events_ok_spawn: "holds events_ok (spawn ex)"
  by (simp add: holds_def spawn_def events_ok_def tags_ok_def)

lemma events_ok_run: "holds events_ok (run sched (spawn ex))"
  by (rule run_preserves [where S = False and T = "tasks ex"])
     (simp_all add: events_ok_advance events_ok_other events_ok_spawn, simp add: spawn_def)

section \<open>How often execute is called\<close>

lemma in_loop_Executing: "in_loop (Executing site es) = (site = InLoop)"
  by (cases site) simp_all

lemma once_ok_other: "once_ok T i p tr \<Longrightarrow> j \<noteq> i \<Longrightarrow> once_ok T i p (tr @ [(j, e)])"
  by (simp add: once_ok_def)

lemma once_ok_advance:
  assumes "once_ok T i p tr" "advance (T ! i) stop p = (p', a)"
  shows "once_ok T i p' (tr @ map (Pair i) (events_of a))"
  using assms
  by (cases "(T ! i, stop, p)" rule: advance.cases)
     (auto simp: once_ok_def in_loop_Executing split: if_splits)

lemma once_ok_run: "holds (once_ok (tasks ex)) (run sched (spawn ex))"
  by (rule run_preserves [where S = False and T = "tasks ex"])
     (simp_all add: once_ok_advance once_ok_other, simp_all add: spawn_def holds_def once_ok_def)

text \<open>Once the stop flag is set, a repeating worker does not call execute again.\<close>

lemma frozen_other: "frozen T n i p tr \<Longrightarrow> j \<noteq> i \<Longrightarrow> frozen T n i p (tr @ [(j, e)])"
  by (simp add: frozen_def)

lemma frozen_advance:
  assumes "frozen T n i p tr" "advance (T ! i) True p = (p', a)"
  shows "frozen T n i p' (tr @ map (Pair i) (events_of a))"
  using assms
  by (cases "(T ! i, True, p)" rule: advance.cases)
     (auto simp: frozen_def split: if_splits)

lemma frozen_run:
  assumes "stopRequested (exec c)"
  shows "holds (frozen (tasks (exec c)) (\<lambda>i. count_list (trace c) (i, Invoke))) (run sched c)"
  by (rule run_preserves [where S = True and T = "tasks (exec c)"])
     (use assms in \<open>simp_all add: frozen_advance frozen_other\<close>, simp add: holds_def frozen_def)

lemma no_reentry:
  assumes "stopRequested (exec c)" "i < length (pcs c)" "isRepeating (tasks (exec c) ! i)"
  shows "count_list (trace (run sched c)) (i, Invoke) = count_list (trace c) (i, Invoke)"
  using frozen_run [OF assms(1), of sched] assms(2,3)
  by (simp add: holds_def frozen_def run_frame)

section \<open>Faults\<close>

lemma fault_ok_other: "fault_ok i p tr \<Longrightarrow> j \<noteq> i \<Longrightarrow> fault_ok i p (tr @ [(j, e)])"
  by (simp add: fault_ok_def)

lemma fault_ok_advance:
  assumes "fault_ok i p tr" "advance t stop p = (p', a)"
  shows "fault_ok i p' (tr @ map (Pair i) (events_of a))"
  using assms
  by (cases "(t, stop, p)" rule: advance.cases) (auto simp: fault_ok_def split: if_splits)

lemma fault_ok_run: "holds fault_ok (run sched (spawn ex))"
  by (rule run_preserves [where S = False and T = "tasks ex"])
     (simp_all add: fault_ok_advance fault_ok_other, simp_all add: spawn_def holds_def fault_ok_def)

lemma advance_Abort: "advance t stop p = (p', Abort) \<Longrightarrow> p = Terminating \<and> p' = Terminating"
  by (cases "(t, stop, p)" rule: advance.cases) (auto split: if_splits)

lemma perform_terminated: "terminated (perform i p a c) = (terminated c \<or> a = Abort)"
  by (cases a) (simp_all add: step_defs)

text \<open>The process ends only by the abort of a worker inside \<^verbatim>\<open>std::terminate\<close>.\<close>

lemma step_dead_inv: "dead_inv c \<Longrightarrow> dead_inv (step x c)"
proof (cases "terminated c")
  case True
  then show "dead_inv c \<Longrightarrow> dead_inv (step x c)" by (simp add: step_terminated)
next
  case False
  show "dead_inv (step x c)"
  proof (cases x)
    case RequestStop
    then show ?thesis using False by (simp add: step_def dead_inv_def)
  next
    case (Worker j)
    show ?thesis
    proof (cases "j < length (pcs c) \<and> j < length (tasks (exec c))")
      case out: False
      then show ?thesis using Worker False by (auto simp: step_def dead_inv_def)
    next
      case True
      obtain p a where adv: "advance (tasks (exec c) ! j) (stopRequested (exec c)) (pcs c ! j) = (p, a)"
        by (cases "advance (tasks (exec c) ! j) (stopRequested (exec c)) (pcs c ! j)")
      have st: "step x c = perform j p a c"
        using Worker True False adv by (simp add: step_def worker_def)
      show ?thesis
      proof (cases "a = Abort")
        case no: False
        then show ?thesis using st False by (simp add: dead_inv_def perform_terminated)
      next
        case yes: True
        then have "p = Terminating" using adv advance_Abort by blast
        then have "pcs (step x c) ! j = Terminating" "j < length (pcs (step x c))"
          using yes True unfolding st by (simp_all add: goto_def)
        then show ?thesis unfolding dead_inv_def by blast
      qed
    qed
  qed
qed

lemma run_dead_inv: "dead_inv c \<Longrightarrow> dead_inv (run sched c)"
  by (induction sched arbitrary: c) (simp_all add: step_dead_inv)

lemma dead_inv_runAll: "dead_inv (runAll sched ex)"
  unfolding runAll_def by (rule run_dead_inv) (simp add: dead_inv_def spawn_def)






text \<open>Without a \<^verbatim>\<open>throw\<close> in any execute no worker gets into \<^verbatim>\<open>std::terminate\<close>.\<close>

lemma is_throw_iff: "is_throw e = (\<exists>reason. e = Throw reason)"
  by (cases e) simp_all

lemma throws_iff: "throws t = (\<exists>reason. Throw reason \<in> set (execute t))"
  by (auto simp: throws_def list_ex_iff is_throw_iff)

lemma is_diverge_iff: "is_diverge e = (e = Diverge)"
  by (cases e) simp_all

lemma diverges_iff: "diverges t = (Diverge \<in> set (execute t))"
  by (auto simp: diverges_def list_ex_iff is_diverge_iff)

lemma intact_other: "intact T i p tr \<Longrightarrow> j \<noteq> i \<Longrightarrow> intact T i p (tr @ [(j, e)])"
  by (simp add: intact_def)

lemma intact_advance:
  assumes "intact T i p tr" "advance (T ! i) stop p = (p', a)" "\<not> throws (T ! i)"
  shows "intact T i p' (tr @ map (Pair i) (events_of a))"
  using assms
  by (cases "(T ! i, stop, p)" rule: advance.cases)
     (auto simp: intact_def throws_iff split: if_splits)

lemma intact_run:
  assumes "\<not> list_ex throws (tasks ex)"
  shows "holds (intact (tasks ex)) (run sched (spawn ex))"
proof (rule run_preserves [where S = False and T = "tasks ex"])
  fix i p p' a stop tr
  assume "i < length (tasks ex)" "intact (tasks ex) i p tr"
    "advance (tasks ex ! i) stop p = (p', a)"
  moreover from this assms have "\<not> throws (tasks ex ! i)" by (auto simp: list_ex_iff)
  ultimately show "intact (tasks ex) i p' (tr @ map (Pair i) (events_of a))"
    by (intro intact_advance)
qed (simp_all add: intact_other spawn_def holds_def intact_def)

lemma runAll_not_terminated:
  assumes "\<not> list_ex throws (tasks ex)"
  shows "\<not> terminated (runAll sched ex)"
proof
  assume "terminated (runAll sched ex)"
  then obtain i where "i < length (pcs (runAll sched ex))" "pcs (runAll sched ex) ! i = Terminating"
    using dead_inv_runAll [of sched ex] by (auto simp: dead_inv_def)
  moreover have "holds (intact (tasks ex)) (runAll sched ex)"
    unfolding runAll_def using assms by (rule intact_run)
  ultimately show False by (auto simp: holds_def intact_def)
qed



section \<open>The mutex\<close>

lemma advance_critical:
  assumes "advance t stop p = (p', a)"
  shows "(a = Acquire \<longrightarrow> \<not> critical p \<and> critical p') \<and>
         (a = Release \<longrightarrow> critical p \<and> \<not> critical p') \<and>
         (a \<noteq> Acquire \<and> a \<noteq> Release \<longrightarrow> critical p' = critical p)"
  using assms
  by (cases "(t, stop, p)" rule: advance.cases) (auto split: if_splits)

lemma perform_mutex_inv:
  assumes inv: "mutex_inv c" and j: "j < length (pcs c)"
    and adv: "advance t stop (pcs c ! j) = (p, a)"
  shows "mutex_inv (perform j p a c)"
proof (cases a)
  case Acquire
  show ?thesis
  proof (cases "coutMutex (exec c) = None")
    case True
    then have "\<not> critical (pcs c ! i)" if "i < length (pcs c)" for i
      using inv that by (auto simp: mutex_inv_def)
    then show ?thesis using Acquire True advance_critical [OF adv] j
      by (auto simp: mutex_inv_def step_defs nth_list_update)
  next
    case False
    then show ?thesis using Acquire inv by auto
  qed
next
  case Release
  then have cj: "critical (pcs c ! j)" "\<not> critical p" using advance_critical [OF adv] by auto
  then have "coutMutex (exec c) = Some j" using inv j by (simp add: mutex_inv_def)
  then have "\<not> critical (pcs c ! i)" if "i < length (pcs c)" "i \<noteq> j" for i
    using inv that by (auto simp: mutex_inv_def)
  then show ?thesis using Release cj j
    by (auto simp: mutex_inv_def step_defs nth_list_update)
next
  case (Emit e)
  then show ?thesis using inv j advance_critical [OF adv]
    by (auto simp: mutex_inv_def step_defs nth_list_update)
next
  case Silent
  then show ?thesis using inv j advance_critical [OF adv]
    by (auto simp: mutex_inv_def step_defs nth_list_update)
next
  case Abort
  then show ?thesis using inv j advance_critical [OF adv]
    by (auto simp: mutex_inv_def step_defs nth_list_update)
qed

lemma step_mutex_inv: "mutex_inv c \<Longrightarrow> mutex_inv (step x c)"
proof (cases x)
  case RequestStop
  then show "mutex_inv c \<Longrightarrow> mutex_inv (step x c)"
    by (simp add: step_def mutex_inv_def requestStop_def)
next
  case (Worker j)
  assume inv: "mutex_inv c"
  obtain p a where adv: "advance (tasks (exec c) ! j) (stopRequested (exec c)) (pcs c ! j) = (p, a)"
    by (cases "advance (tasks (exec c) ! j) (stopRequested (exec c)) (pcs c ! j)")
  show "mutex_inv (step x c)"
    using Worker inv adv perform_mutex_inv [OF inv _ adv]
    by (simp add: step_def worker_def)
qed

lemma run_mutex_inv: "mutex_inv c \<Longrightarrow> mutex_inv (run sched c)"
  by (induction sched arbitrary: c) (simp_all add: step_mutex_inv)

lemma to_invoke_0: "(to_invoke p = 0) = invoked p"
  by (cases p) simp_all

lemma to_release_0: "(to_release p = 0) = (\<not> critical p)"
  by (cases p) simp_all

lemma to_release_le: "to_release p \<le> 4"
  by (cases p) simp_all

lemma to_invoke_le: "to_invoke p \<le> 7"
  by (cases p) simp_all

lemma perform_holder_inv:
  assumes inv: "holder_inv c" and j: "j < length (pcs c)"
    and adv: "advance t stop (pcs c ! j) = (p, a)"
  shows "holder_inv (perform j p a c)"
  using inv j advance_critical [OF adv]
  by (cases a) (auto simp: holder_inv_def step_defs nth_list_update split: option.splits)

lemma step_holder_inv: "holder_inv c \<Longrightarrow> holder_inv (step x c)"
proof (cases x)
  case RequestStop
  then show "holder_inv c \<Longrightarrow> holder_inv (step x c)"
    by (auto simp: step_def holder_inv_def requestStop_def split: option.splits)
next
  case (Worker j)
  assume inv: "holder_inv c"
  obtain p a where adv: "advance (tasks (exec c) ! j) (stopRequested (exec c)) (pcs c ! j) = (p, a)"
    by (cases "advance (tasks (exec c) ! j) (stopRequested (exec c)) (pcs c ! j)")
  show "holder_inv (step x c)"
    using Worker inv adv perform_holder_inv [OF inv _ adv]
    by (simp add: step_def worker_def)
qed

lemma run_holder_inv: "holder_inv c \<Longrightarrow> holder_inv (run sched c)"
  by (induction sched arbitrary: c) (simp_all add: step_holder_inv)

lemma spawn_holder_inv: "coutMutex ex = None \<Longrightarrow> holder_inv (spawn ex)"
  by (simp add: holder_inv_def spawn_def)

section \<open>No worker is kept from its execute\<close>

text \<open>One step of the worker that holds the mutex.\<close>

lemma holder_step:
  assumes "\<not> terminated c" "h < length (pcs c)" "h < length (tasks (exec c))"
    and "coutMutex (exec c) = Some h" "to_release (pcs c ! h) = Suc n"
  shows "\<not> terminated (step (Worker h) c) \<and>
    (if n = 0 then coutMutex (exec (step (Worker h) c)) = None
     else coutMutex (exec (step (Worker h) c)) = Some h \<and>
          to_release (pcs (step (Worker h) c) ! h) = n)"
  using assms
  by (cases "pcs c ! h") (auto simp: step_def worker_def step_defs)

lemma holder_releases:
  assumes "\<not> terminated c" "h < length (pcs c)" "h < length (tasks (exec c))"
    and "coutMutex (exec c) = Some h" "to_release (pcs c ! h) = Suc n"
  shows "\<not> terminated (run (replicate (Suc n) (Worker h)) c) \<and>
    coutMutex (exec (run (replicate (Suc n) (Worker h)) c)) = None"
  using assms
proof (induction n arbitrary: c)
  case 0
  then show ?case using holder_step [of c h 0] by simp
next
  case (Suc n)
  let ?c = "step (Worker h) c"
  have s: "\<not> terminated ?c \<and> coutMutex (exec ?c) = Some h \<and> to_release (pcs ?c ! h) = Suc n"
    using holder_step [of c h "Suc n"] Suc.prems by simp
  have "\<not> terminated (run (replicate (Suc n) (Worker h)) ?c) \<and>
    coutMutex (exec (run (replicate (Suc n) (Worker h)) ?c)) = None"
    using s Suc.prems by (intro Suc.IH) (simp_all add: step_frame)
  then show ?case by simp
qed

text \<open>One step of a worker on its way to line 110, the mutex being free or its own.\<close>

lemma approach_step:
  assumes "\<not> terminated c" "i < length (pcs c)" "i < length (tasks (exec c))"
    and "\<not> isRepeating (tasks (exec c) ! i)"
    and "coutMutex (exec c) = None \<or> coutMutex (exec c) = Some i" "holder_inv c"
    and "to_invoke (pcs c ! i) = Suc n"
  shows "\<not> terminated (step (Worker i) c) \<and>
    (coutMutex (exec (step (Worker i) c)) = None \<or> coutMutex (exec (step (Worker i) c)) = Some i) \<and>
    to_invoke (pcs (step (Worker i) c) ! i) = n"
  using assms
  by (cases "pcs c ! i") (auto simp: step_def worker_def step_defs holder_inv_def)

lemma approach:
  assumes "\<not> terminated c" "i < length (pcs c)" "i < length (tasks (exec c))"
    and "\<not> isRepeating (tasks (exec c) ! i)"
    and "coutMutex (exec c) = None \<or> coutMutex (exec c) = Some i" "holder_inv c"
    and "to_invoke (pcs c ! i) = n"
  shows "invoked (pcs (run (replicate n (Worker i)) c) ! i)"
  using assms
proof (induction n arbitrary: c)
  case 0
  then show ?case by (simp add: to_invoke_0)
next
  case (Suc n)
  let ?c = "step (Worker i) c"
  have s: "\<not> terminated ?c \<and> (coutMutex (exec ?c) = None \<or> coutMutex (exec ?c) = Some i) \<and>
      to_invoke (pcs ?c ! i) = n"
    using Suc.prems by (intro approach_step) simp_all
  have "invoked (pcs (run (replicate n (Worker i)) ?c) ! i)"
    using s Suc.prems by (intro Suc.IH) (simp_all add: step_frame step_holder_inv)
  then show ?case by simp
qed

lemma invoked_count:
  assumes "i < length (tasks ex)" "\<not> isRepeating (tasks ex ! i)"
    and "invoked (pcs (runAll sched ex) ! i)"
  shows "count_list (trace (runAll sched ex)) (i, Invoke) = 1"
proof -
  have "holds (once_ok (tasks ex)) (runAll sched ex)" unfolding runAll_def by (rule once_ok_run)
  then show ?thesis using assms by (simp add: holds_def once_ok_def runAll_frame)
qed

text \<open>
  From every state of a run in which the process has not ended, the worker of a non-repeating
  task can be brought to its execute: by at most four actions of the worker that holds the
  mutex and seven of its own.
\<close>

lemma can_execute:
  assumes free: "coutMutex ex = None"
    and i: "i < length (tasks ex)" and once: "\<not> isRepeating (tasks ex ! i)"
    and live: "\<not> terminated (runAll sched ex)"
  shows "\<exists>extra. length extra \<le> 11 \<and>
    count_list (trace (runAll (sched @ extra) ex)) (i, Invoke) = 1"
proof -
  let ?c = "runAll sched ex"
  have hi: "holder_inv ?c"
    unfolding runAll_def using free by (intro run_holder_inv spawn_holder_inv)
  have reach: "\<exists>extra. length extra \<le> 7 \<and>
      count_list (trace (runAll (sched @ pre @ extra) ex)) (i, Invoke) = 1"
    if pre: "\<not> terminated (run pre ?c)"
      "coutMutex (exec (run pre ?c)) = None \<or> coutMutex (exec (run pre ?c)) = Some i"
    for pre
  proof -
    let ?d = "run pre ?c"
    let ?r = "replicate (to_invoke (pcs ?d ! i)) (Worker i)"
    have d: "?d = runAll (sched @ pre) ex" by (simp add: runAll_def run_append)
    have "invoked (pcs (run ?r ?d) ! i)"
      using pre i once hi
      by (intro approach) (simp_all add: run_frame runAll_frame run_holder_inv)
    moreover have "run ?r ?d = runAll (sched @ pre @ ?r) ex"
      by (simp add: runAll_def run_append)
    ultimately have "count_list (trace (runAll (sched @ pre @ ?r) ex)) (i, Invoke) = 1"
      using i once by (simp add: invoked_count)
    moreover have "length ?r \<le> 7" using to_invoke_le [of "pcs ?d ! i"] by simp
    ultimately show ?thesis by blast
  qed
  show ?thesis
  proof (cases "coutMutex (exec ?c) = None \<or> coutMutex (exec ?c) = Some i")
    case True
    then obtain extra where "length extra \<le> 7"
      "count_list (trace (runAll (sched @ [] @ extra) ex)) (i, Invoke) = 1"
      using reach [of "[]"] live by auto
    then have "length extra \<le> 11 \<and>
      count_list (trace (runAll (sched @ extra) ex)) (i, Invoke) = 1" by simp
    then show ?thesis by blast
  next
    case False
    then obtain h where h: "coutMutex (exec ?c) = Some h" "h \<noteq> i" by auto
    then have hc: "h < length (pcs ?c)" "critical (pcs ?c ! h)"
      using hi by (simp_all add: holder_inv_def)
    then obtain n where n: "to_release (pcs ?c ! h) = Suc n"
      using to_release_0 [of "pcs ?c ! h"] by (cases "to_release (pcs ?c ! h)") auto
    let ?pre = "replicate (Suc n) (Worker h)"
    have rel: "\<not> terminated (run ?pre ?c) \<and> coutMutex (exec (run ?pre ?c)) = None"
      using live hc h n by (intro holder_releases) (simp_all add: runAll_frame)
    have "length ?pre \<le> 4" using to_release_le [of "pcs ?c ! h"] n by simp
    then obtain extra where "length extra \<le> 7"
      "count_list (trace (runAll (sched @ ?pre @ extra) ex)) (i, Invoke) = 1"
      using reach [of ?pre] rel by blast
    then have "length (?pre @ extra) \<le> 11 \<and>
      count_list (trace (runAll (sched @ (?pre @ extra)) ex)) (i, Invoke) = 1"
      using \<open>length ?pre \<le> 4\<close> by simp
    then show ?thesis by blast
  qed
qed

section \<open>Every worker can run to its end\<close>

text \<open>
  One step of a worker on its way to its end: the stop is requested, the mutex is free or
  its own, and it has neither a \<^verbatim>\<open>throw\<close> nor an endless loop before it.
\<close>

lemma to_done_0: "to_done t p = 0 \<Longrightarrow> p = Done \<or> p = Terminating"
  by (cases "(t, p)" rule: to_done.cases) (simp_all add: after_start_def split: if_splits)

lemma to_done_Executing:
  "to_done t (Executing site es) = length es + (if site = Once then 6 else 8)"
  by (cases site) simp_all

lemma finish_step:
  assumes "\<not> terminated c" "i < length (pcs c)" "i < length (tasks (exec c))"
    and "stopRequested (exec c)"
    and "coutMutex (exec c) = None \<or> coutMutex (exec c) = Some i" "holder_inv c"
    and "intact (tasks (exec c)) i (pcs c ! i) (trace c)"
    and "\<not> throws (tasks (exec c) ! i)" "\<not> diverges (tasks (exec c) ! i)"
    and "to_done (tasks (exec c) ! i) (pcs c ! i) = Suc n"
  shows "\<not> terminated (step (Worker i) c) \<and>
    (coutMutex (exec (step (Worker i) c)) = None \<or> coutMutex (exec (step (Worker i) c)) = Some i) \<and>
    to_done (tasks (exec c) ! i) (pcs (step (Worker i) c) ! i) = n \<and>
    intact (tasks (exec c)) i (pcs (step (Worker i) c) ! i) (trace (step (Worker i) c)) \<and>
    (\<forall>j. j \<noteq> i \<longrightarrow> pcs (step (Worker i) c) ! j = pcs c ! j)"
  using assms
  by (cases "(tasks (exec c) ! i, True, pcs c ! i)" rule: advance.cases)
     (auto simp: step_def worker_def step_defs holder_inv_def intact_def after_start_def
        throws_iff diverges_iff to_done_Executing simp del: to_done.simps(9,10))

lemma finish:
  assumes "\<not> terminated c" "i < length (pcs c)" "i < length (tasks (exec c))"
    and "stopRequested (exec c)"
    and "coutMutex (exec c) = None \<or> coutMutex (exec c) = Some i" "holder_inv c"
    and "intact (tasks (exec c)) i (pcs c ! i) (trace c)"
    and "\<not> throws (tasks (exec c) ! i)" "\<not> diverges (tasks (exec c) ! i)"
    and "to_done (tasks (exec c) ! i) (pcs c ! i) = n"
  shows "\<not> terminated (run (replicate n (Worker i)) c) \<and>
    coutMutex (exec (run (replicate n (Worker i)) c)) = None \<and>
    pcs (run (replicate n (Worker i)) c) ! i = Done \<and>
    (\<forall>j. j \<noteq> i \<longrightarrow> pcs (run (replicate n (Worker i)) c) ! j = pcs c ! j)"
  using assms
proof (induction n arbitrary: c)
  case 0
  then have d: "pcs c ! i = Done" using to_done_0 by (auto simp: intact_def)
  then have "coutMutex (exec c) = None"
    using 0 by (auto simp: holder_inv_def)
  then show ?case using 0 d by simp
next
  case (Suc n)
  let ?c = "step (Worker i) c"
  have s: "\<not> terminated ?c \<and>
    (coutMutex (exec ?c) = None \<or> coutMutex (exec ?c) = Some i) \<and>
    to_done (tasks (exec c) ! i) (pcs ?c ! i) = n \<and>
    intact (tasks (exec c)) i (pcs ?c ! i) (trace ?c) \<and>
    (\<forall>j. j \<noteq> i \<longrightarrow> pcs ?c ! j = pcs c ! j)"
    using Suc.prems by (intro finish_step) simp_all
  have "\<not> terminated (run (replicate n (Worker i)) ?c) \<and>
    coutMutex (exec (run (replicate n (Worker i)) ?c)) = None \<and>
    pcs (run (replicate n (Worker i)) ?c) ! i = Done \<and>
    (\<forall>j. j \<noteq> i \<longrightarrow> pcs (run (replicate n (Worker i)) ?c) ! j = pcs ?c ! j)"
    using s Suc.prems
    by (intro Suc.IH) (simp_all add: step_frame step_holder_inv step_stop)
  then show ?case using s by simp
qed

text \<open>The workers run to their ends one after the other.\<close>

lemma finish_upto:
  assumes live: "\<not> terminated c" and len: "length (pcs c) = length (tasks (exec c))"
    and stop: "stopRequested (exec c)" and free: "coutMutex (exec c) = None"
    and hi: "holder_inv c" and ok: "holds (intact (tasks (exec c))) c"
    and nt: "\<not> list_ex throws (tasks (exec c))" and nd: "\<not> list_ex diverges (tasks (exec c))"
    and k: "k \<le> length (pcs c)"
  shows "\<exists>rest. \<not> terminated (run rest c) \<and> coutMutex (exec (run rest c)) = None \<and>
    (\<forall>j<k. pcs (run rest c) ! j = Done) \<and> (\<forall>j. k \<le> j \<longrightarrow> pcs (run rest c) ! j = pcs c ! j)"
  using k
proof (induction k)
  case 0
  have "\<not> terminated (run [] c) \<and> coutMutex (exec (run [] c)) = None \<and>
    (\<forall>j<0. pcs (run [] c) ! j = Done) \<and> (\<forall>j. 0 \<le> j \<longrightarrow> pcs (run [] c) ! j = pcs c ! j)"
    using live free by simp
  then show ?case by (rule exI)
next
  case (Suc k)
  have kl: "k < length (pcs c)" using Suc.prems by simp
  then have "k \<le> length (pcs c)" by simp
  from Suc.IH [OF this]
  obtain rest where "\<not> terminated (run rest c) \<and> coutMutex (exec (run rest c)) = None \<and>
    (\<forall>j<k. pcs (run rest c) ! j = Done) \<and> (\<forall>j. k \<le> j \<longrightarrow> pcs (run rest c) ! j = pcs c ! j)" ..
  then have r: "\<not> terminated (run rest c)" "coutMutex (exec (run rest c)) = None"
    "\<forall>j<k. pcs (run rest c) ! j = Done" "\<forall>j. k \<le> j \<longrightarrow> pcs (run rest c) ! j = pcs c ! j"
    by simp_all
  let ?d = "run rest c"
  let ?t = "tasks (exec c) ! k"
  let ?w = "replicate (to_done ?t (pcs ?d ! k)) (Worker k)"
  have same: "pcs ?d ! k = pcs c ! k" using r(4) by simp
  have "intact (tasks (exec c)) k (pcs c ! k) (trace c)" using ok kl by (simp add: holds_def)
  then have ik: "intact (tasks (exec ?d)) k (pcs ?d ! k) (trace ?d)"
    using same by (simp add: intact_def run_frame)
  have "?t \<in> set (tasks (exec c))" using kl len by simp
  then have tk: "\<not> throws ?t" "\<not> diverges ?t"
    using nt nd unfolding list_ex_iff by blast+
  have kd: "k < length (pcs ?d)" "k < length (tasks (exec ?d))"
    using kl len by (simp_all add: run_frame)
  have sd: "stopRequested (exec ?d)" using stop by (rule run_stop)
  have hd: "holder_inv ?d" using hi by (rule run_holder_inv)
  have md: "coutMutex (exec ?d) = None \<or> coutMutex (exec ?d) = Some k" using r(2) by simp
  have td: "\<not> throws (tasks (exec ?d) ! k)" "\<not> diverges (tasks (exec ?d) ! k)"
    using tk by (simp_all add: run_frame)
  have wd: "to_done (tasks (exec ?d) ! k) (pcs ?d ! k) = to_done ?t (pcs ?d ! k)"
    by (simp add: run_frame)
  note f = finish [OF r(1) kd sd md hd ik td wd]
  let ?e = "run (rest @ ?w) c"
  have e: "?e = run ?w ?d" by (rule run_append)
  have 1: "\<not> terminated ?e" "coutMutex (exec ?e) = None" "pcs ?e ! k = Done"
    unfolding e using f by blast+
  have 2: "pcs ?e ! j = pcs ?d ! j" if "j \<noteq> k" for j
    unfolding e using f that by blast
  have 3: "pcs ?e ! j = Done" if "j < Suc k" for j
  proof (cases "j = k")
    case True
    then show ?thesis using 1(3) by simp
  next
    case False
    then have "j < k" using that by simp
    then show ?thesis using 2 [OF False] r(3) by simp
  qed
  have 4: "pcs ?e ! j = pcs c ! j" if "Suc k \<le> j" for j
  proof -
    from that have "j \<noteq> k" "k \<le> j" by simp_all
    then show ?thesis using 2 [of j] r(4) by simp
  qed
  have "\<not> terminated ?e \<and> coutMutex (exec ?e) = None \<and>
    (\<forall>j<Suc k. pcs ?e ! j = Done) \<and> (\<forall>j. Suc k \<le> j \<longrightarrow> pcs ?e ! j = pcs c ! j)"
    using 1 3 4 by blast
  then show ?case by (rule exI)
qed

text \<open>
  A run in which no execute throws or runs forever can always be brought to the return of
  \<^verbatim>\<open>runAll\<close>: the orchestrator requests the stop, the worker that holds the mutex gives it
  back, and the workers run to their ends one after the other.
\<close>

lemma can_return:
  assumes free: "coutMutex ex = None"
    and nt: "\<not> list_ex throws (tasks ex)" and nd: "\<not> list_ex diverges (tasks ex)"
  shows "\<exists>rest. returned (runAll (sched @ rest) ex)"
proof -
  let ?s1 = "sched @ [RequestStop]"
  let ?c = "runAll ?s1 ex"
  have live: "\<not> terminated (runAll s ex)" for s using nt by (rule runAll_not_terminated)
  have hi: "holder_inv (runAll s ex)" for s
    unfolding runAll_def using free by (intro run_holder_inv spawn_holder_inv)
  have ok: "holds (intact (tasks ex)) (runAll s ex)" for s
    unfolding runAll_def using nt by (rule intact_run)
  have "?c = step RequestStop (runAll sched ex)" by (simp add: runAll_def run_append)
  then have stop: "stopRequested (exec ?c)"
    using live [of sched] by (simp add: step_def requestStop_def)
  have "\<exists>pre. coutMutex (exec (runAll (?s1 @ pre) ex)) = None"
  proof (cases "coutMutex (exec ?c)")
    case None
    then have "coutMutex (exec (runAll (?s1 @ []) ex)) = None" by simp
    then show ?thesis by blast
  next
    case (Some h)
    then have hc: "h < length (pcs ?c)" "critical (pcs ?c ! h)"
      using hi [of ?s1] by (simp_all add: holder_inv_def)
    then obtain n where n: "to_release (pcs ?c ! h) = Suc n"
      using to_release_0 [of "pcs ?c ! h"] by (cases "to_release (pcs ?c ! h)") auto
    have "coutMutex (exec (run (replicate (Suc n) (Worker h)) ?c)) = None"
      using holder_releases [of ?c h n] live [of ?s1] hc Some n by (simp add: runAll_frame)
    then have "coutMutex (exec (runAll (?s1 @ replicate (Suc n) (Worker h)) ex)) = None"
      by (simp add: runAll_def run_append)
    then show ?thesis by blast
  qed
  then obtain pre where pre: "coutMutex (exec (runAll (?s1 @ pre) ex)) = None" by blast
  let ?d = "runAll (?s1 @ pre) ex"
  have "?d = run pre ?c" by (simp add: runAll_def run_append)
  then have stopd: "stopRequested (exec ?d)" using stop by (simp add: run_stop)
  have "\<exists>rest. \<not> terminated (run rest ?d) \<and> coutMutex (exec (run rest ?d)) = None \<and>
    (\<forall>j<length (pcs ?d). pcs (run rest ?d) ! j = Done) \<and>
    (\<forall>j. length (pcs ?d) \<le> j \<longrightarrow> pcs (run rest ?d) ! j = pcs ?d ! j)"
    using live [of "?s1 @ pre"] stopd pre hi [of "?s1 @ pre"] ok [of "?s1 @ pre"] nt nd
    by (intro finish_upto) (simp_all add: runAll_frame)
  then obtain rest where rest: "\<not> terminated (run rest ?d)"
    "\<forall>j<length (pcs ?d). pcs (run rest ?d) ! j = Done"
    by blast
  have e: "run rest ?d = runAll (sched @ ([RequestStop] @ pre @ rest)) ex"
    by (simp add: runAll_def run_append)
  have "returned (run rest ?d)"
    using rest by (simp add: returned_def list_all_length run_frame)
  then have "returned (runAll (sched @ ([RequestStop] @ pre @ rest)) ex)"
    unfolding e .
  then show ?thesis by (rule exI)
qed

section \<open>The claims\<close>

subsection \<open>C1: a stop requested before the run\<close>

text \<open>
  C1, as the code has it. The loop of lines 104-108 is a \<^verbatim>\<open>while\<close> loop: the stop flag is
  read at the loop head, before every call of \<^verbatim>\<open>execute\<close>, the first one included. For
  every repeating task, if \<^verbatim>\<open>requestStop\<close> is invoked before \<^verbatim>\<open>runAll\<close> starts, the worker
  never calls \<^verbatim>\<open>execute\<close>, in any interleaving.
\<close>

theorem C1_stop_before_run_no_execute:
  assumes "stopRequested ex" "i < length (tasks ex)" "isRepeating (tasks ex ! i)"
  shows "count_list (trace (runAll sched ex)) (i, Invoke) = 0"
  using no_reentry [of "spawn ex" i sched] assms
  by (simp add: runAll_def spawn_def)

theorem C1_witness:
  "stopRequested stopped_executor \<and> (0::nat) < length (tasks stopped_executor) \<and>
   isRepeating (tasks stopped_executor ! 0) \<and>
   count_list (trace (runAll main_schedule stopped_executor)) (0, Invoke) = 0"
proof -
  have a: "stopRequested stopped_executor" by code_simp
  have b: "(0::nat) < length (tasks stopped_executor)" by code_simp
  have c: "isRepeating (tasks stopped_executor ! 0)" by code_simp
  show ?thesis
    using C1_stop_before_run_no_execute [OF a b c, of main_schedule] a b c by simp
qed

text \<open>
  C1 as stated fails: with the tasks of main and the stop requested before the run, every
  worker runs to its end and \<^verbatim>\<open>runAll\<close> returns, and the repeating printer (worker 0) has
  not performed its first execute.
\<close>

theorem C1_counterexample:
  "stopRequested stopped_executor \<and> isRepeating (tasks stopped_executor ! 0) \<and>
   returned (runAll stopped_schedule stopped_executor) \<and>
   count_list (trace (runAll stopped_schedule stopped_executor)) (0, Invoke) = 0"
  by code_simp

subsection \<open>C2: negative timing values\<close>

text \<open>
  C2, as the code has it. \<^verbatim>\<open>addTask\<close> registers every task, whatever its delay and repeat
  interval: the task is appended to the task list as it is and nothing else changes.
  \<^verbatim>\<open>setDelay\<close> and \<^verbatim>\<open>setRepeatInterval\<close> store the value they are given, negative or not.
  No configuration error exists, and a negative timing value is not clamped either.
\<close>

theorem C2_addTask_accepts_any_timing:
  "tasks (addTask t ex) = tasks ex @ [t] \<and>
   stopRequested (addTask t ex) = stopRequested ex \<and>
   coutMutex (addTask t ex) = coutMutex ex \<and>
   getDelay (setDelay ms t) = ms \<and>
   getRepeatInterval (setRepeatInterval ms t) = ms"
  by (simp add: addTask_def getDelay_def setDelay_def getRepeatInterval_def
      setRepeatInterval_def)

text \<open>
  C2 as stated fails: a task with delay -5 and repeat interval -7 is registered, with both
  values unchanged.
\<close>

theorem C2_counterexample:
  "sint (getDelay negativeTask) = - 5 \<and> sint (getRepeatInterval negativeTask) = - 7 \<and>
   tasks (addTask negativeTask TaskExecutor) = [negativeTask]"
  by (simp add: negativeTask_def addTask_def TaskExecutor_def getDelay_def setDelay_def
      getRepeatInterval_def setRepeatInterval_def PrintTask_def Task_def)

subsection \<open>C3: a fault inside execute\<close>




subsection \<open>C4: one start event and one end event\<close>

text \<open>
  C4, as the code has it. For every registered task, in every interleaving: the worker
  never puts more than one start tag, and never more end tags than start tags; once the
  worker has reached its end, and so whenever \<^verbatim>\<open>runAll\<close> has returned, the trace of the run
  holds exactly one start tag and exactly one end tag of the worker, the start tag before
  the end tag. And \<^verbatim>\<open>runAll\<close> does return: when no \<^verbatim>\<open>execute\<close> throws or runs forever, every
  run can be continued (the orchestrator requesting the stop) to the point where
  \<^verbatim>\<open>runAll\<close> has returned. A worker that a fault has left has put its start tag and never
  puts an end tag.
\<close>

theorem C4_one_start_one_end:
  assumes "i < length (tasks ex)"
  shows "count_list (trace (runAll sched ex)) (i, StartTag) \<le> 1 \<and>
    count_list (trace (runAll sched ex)) (i, EndTag)
      \<le> count_list (trace (runAll sched ex)) (i, StartTag) \<and>
    (pcs (runAll sched ex) ! i = Done \<or> returned (runAll sched ex) \<longrightarrow>
       count_list (trace (runAll sched ex)) (i, StartTag) = 1 \<and>
       count_list (trace (runAll sched ex)) (i, EndTag) = 1 \<and>
       first_index (i, StartTag) (trace (runAll sched ex))
         < first_index (i, EndTag) (trace (runAll sched ex))) \<and>
    (coutMutex ex = None \<and> \<not> list_ex throws (tasks ex) \<and> \<not> list_ex diverges (tasks ex) \<longrightarrow>
       (\<exists>rest. returned (runAll (sched @ rest) ex))) \<and>
    ((i, Fault reason) \<in> set (trace (runAll sched ex)) \<longrightarrow>
       count_list (trace (runAll sched ex)) (i, StartTag) = 1 \<and>
       count_list (trace (runAll sched ex)) (i, EndTag) = 0)"
proof -
  let ?c = "runAll sched ex"
  have i: "i < length (pcs ?c)" using assms by (simp add: runAll_frame)
  have "holds events_ok ?c" unfolding runAll_def by (rule events_ok_run)
  then have ok: "tags_ok i (started (pcs ?c ! i)) (ended (pcs ?c ! i)) (trace ?c)"
    using i by (simp add: holds_def events_ok_def)
  have "started (pcs ?c ! i) \<and> ended (pcs ?c ! i)"
    if "pcs ?c ! i = Done \<or> returned ?c"
    using that returned_Done [OF _ i] by auto
  then have a: "count_list (trace ?c) (i, StartTag) \<le> 1 \<and>
    count_list (trace ?c) (i, EndTag) \<le> count_list (trace ?c) (i, StartTag) \<and>
    (pcs ?c ! i = Done \<or> returned ?c \<longrightarrow>
       count_list (trace ?c) (i, StartTag) = 1 \<and> count_list (trace ?c) (i, EndTag) = 1 \<and>
       first_index (i, StartTag) (trace ?c) < first_index (i, EndTag) (trace ?c))"
    using ok by (auto simp: tags_ok_def split: if_splits)
  have b: "count_list (trace ?c) (i, StartTag) = 1 \<and> count_list (trace ?c) (i, EndTag) = 0"
    if "(i, Fault reason) \<in> set (trace ?c)"
  proof -
    have "holds fault_ok ?c" unfolding runAll_def by (rule fault_ok_run)
    then have "pcs ?c ! i = Terminating" using i that by (auto simp: holds_def fault_ok_def)
    then show ?thesis using ok by (simp add: tags_ok_def)
  qed
  show ?thesis using a b can_return [of ex sched] by simp
qed

theorem C4_witness:
  "(1::nat) < length (tasks main_executor) \<and>
   returned (runAll main_schedule main_executor) \<and>
   count_list (trace (runAll main_schedule main_executor)) (1, StartTag) = 1 \<and>
   count_list (trace (runAll main_schedule main_executor)) (1, EndTag) = 1 \<and>
   first_index (1, StartTag) (trace (runAll main_schedule main_executor))
     < first_index (1, EndTag) (trace (runAll main_schedule main_executor)) \<and>
   (0::nat) < length (tasks quick_executor) \<and>
   coutMutex quick_executor = None \<and> \<not> list_ex throws (tasks quick_executor) \<and>
   \<not> list_ex diverges (tasks quick_executor) \<and>
   (\<exists>rest. returned (runAll (replicate 3 (Worker 1) @ rest) quick_executor)) \<and>
   returned (runAll quick_schedule quick_executor) \<and>
   count_list (trace (runAll quick_schedule quick_executor)) (0, StartTag) = 1 \<and>
   count_list (trace (runAll quick_schedule quick_executor)) (0, EndTag) = 1 \<and>
   (1::nat) < length (tasks faulty_executor) \<and>
   (1, Fault ''boom'') \<in> set (trace (runAll faulty_schedule faulty_executor)) \<and>
   count_list (trace (runAll faulty_schedule faulty_executor)) (1, StartTag) = 1 \<and>
   count_list (trace (runAll faulty_schedule faulty_executor)) (1, EndTag) = 0"
proof -
  have a: "(1::nat) < length (tasks main_executor)" by code_simp
  have b: "returned (runAll main_schedule main_executor)" by code_simp
  have c: "(0::nat) < length (tasks quick_executor)" by code_simp
  have d: "coutMutex quick_executor = None" by code_simp
  have e: "\<not> list_ex throws (tasks quick_executor)" by code_simp
  have f: "\<not> list_ex diverges (tasks quick_executor)" by code_simp
  have g: "returned (runAll quick_schedule quick_executor)" by code_simp
  have h: "(1::nat) < length (tasks faulty_executor)" by code_simp
  have k: "(1, Fault ''boom'') \<in> set (trace (runAll faulty_schedule faulty_executor))"
    by code_simp
  have "count_list (trace (runAll main_schedule main_executor)) (1, StartTag) = 1 \<and>
   count_list (trace (runAll main_schedule main_executor)) (1, EndTag) = 1 \<and>
   first_index (1, StartTag) (trace (runAll main_schedule main_executor))
     < first_index (1, EndTag) (trace (runAll main_schedule main_executor))"
    using C4_one_start_one_end [OF a, of main_schedule] b by blast
  moreover have "\<exists>rest. returned (runAll (replicate 3 (Worker 1) @ rest) quick_executor)"
    using C4_one_start_one_end [OF c, of "replicate 3 (Worker 1)"] d e f by blast
  moreover have "count_list (trace (runAll quick_schedule quick_executor)) (0, StartTag) = 1 \<and>
   count_list (trace (runAll quick_schedule quick_executor)) (0, EndTag) = 1"
    using C4_one_start_one_end [OF c, of quick_schedule] g by blast
  moreover have "count_list (trace (runAll faulty_schedule faulty_executor)) (1, StartTag) = 1 \<and>
   count_list (trace (runAll faulty_schedule faulty_executor)) (1, EndTag) = 0"
    using C4_one_start_one_end [OF h, of faulty_schedule "''boom''"] k by blast
  ultimately show ?thesis using a b c d e f g h k by blast
qed

text \<open>
  C4 as stated fails: a task whose \<^verbatim>\<open>execute\<close> throws gets no end event. Registered alone,
  its worker puts the start line and calls \<^verbatim>\<open>execute\<close>, the exception leaves the thread and
  \<^verbatim>\<open>std::terminate\<close> ends the process: the output of the run is the start line alone.
\<close>

theorem C4_counterexample:
  "terminated (runAll lone_schedule lone_executor) \<and>
   count_list (trace (runAll lone_schedule lone_executor)) (0, StartTag) = 1 \<and>
   count_list (trace (runAll lone_schedule lone_executor)) (0, EndTag) = 0 \<and>
   stdout (runAll lone_schedule lone_executor) = ''[START] Faulty\<newline>'' \<and>
   runAll (lone_schedule @ replicate 20 (Worker 0)) lone_executor =
     runAll lone_schedule lone_executor"
  by code_simp

subsection \<open>C6: lines of output\<close>

text \<open>
  C6 fails on the code. Lines 94 and 114 take \<^verbatim>\<open>coutMutex\<close> around the start and end lines,
  but the \<^verbatim>\<open>execute\<close> bodies (lines 41, 52, 68) write to \<^verbatim>\<open>std::cout\<close> without it, even
  taking every single insertion \<^verbatim>\<open><<\<close> as atomic. In the first run of main below, at
  2000 ms the waiter has put \<^verbatim>\<open>"WaitTask: Sleeping for "\<close> when the printer puts its whole
  line: the sixth captured line is written by workers 1 and 0. In the second run, at
  4000 ms the waiter holds the mutex and has put \<^verbatim>\<open>"[END] "\<close> when the printer puts its
  line: the end line itself is torn.
\<close>

theorem C6_interleaved_output:
  "stdout (runAll interleaved_schedule main_executor) =
     ''[START] Printer\<newline>[START] Waiter\<newline>[START] Calculator\<newline>PrintTask: Hello World\<newline>PrintTask: Hello World\<newline>WaitTask: Sleeping for PrintTask: Hello World\<newline>2 seconds\<newline>'' \<and>
   map writers (captured_lines (runAll interleaved_schedule main_executor)) =
     [[0], [1], [2], [0], [0], [1, 0], [1]] \<and>
   stdout (runAll torn_schedule main_executor) =
     ''[START] Printer\<newline>[START] Waiter\<newline>[START] Calculator\<newline>PrintTask: Hello World\<newline>PrintTask: Hello World\<newline>PrintTask: Hello World\<newline>WaitTask: Sleeping for 2 seconds\<newline>PrintTask: Hello World\<newline>PrintTask: Hello World\<newline>ComputeTask: Sum = 5050\<newline>[END] Calculator\<newline>PrintTask: Hello World\<newline>[END] PrintTask: Hello World\<newline>Waiter\<newline>'' \<and>
   map writers (captured_lines (runAll torn_schedule main_executor)) =
     [[0], [1], [2], [0], [0], [0], [1], [0], [0], [2], [2], [0], [1, 0], [1]]"
  by code_simp

subsection \<open>C7: a non-repeating task executes once\<close>

text \<open>
  C7, as the code has it. For every non-repeating registered task, whatever other tasks are
  registered, in every interleaving: its \<^verbatim>\<open>execute\<close> is never called more than once, and it
  has been called exactly once when its worker has reached its end and when \<^verbatim>\<open>runAll\<close> has
  returned. No other worker can keep it from its \<^verbatim>\<open>execute\<close> by blocking: from every state
  of a run in which the process has not ended, at most eleven actions (of the worker that
  holds the mutex, then of its own worker) bring it there.
\<close>

theorem C7_execute_once:
  assumes "i < length (tasks ex)" "\<not> isRepeating (tasks ex ! i)"
  shows "count_list (trace (runAll sched ex)) (i, Invoke) \<le> 1 \<and>
    (pcs (runAll sched ex) ! i = Done \<longrightarrow>
       count_list (trace (runAll sched ex)) (i, Invoke) = 1) \<and>
    (returned (runAll sched ex) \<longrightarrow> count_list (trace (runAll sched ex)) (i, Invoke) = 1) \<and>
    (coutMutex ex = None \<and> \<not> terminated (runAll sched ex) \<longrightarrow>
       (\<exists>extra. length extra \<le> 11 \<and>
          count_list (trace (runAll (sched @ extra) ex)) (i, Invoke) = 1))"
proof -
  let ?c = "runAll sched ex"
  have i: "i < length (pcs ?c)" using assms by (simp add: runAll_frame)
  have "holds (once_ok (tasks ex)) ?c" unfolding runAll_def by (rule once_ok_run)
  then have ok: "count_list (trace ?c) (i, Invoke) = (if invoked (pcs ?c ! i) then 1 else 0)"
    using i assms(2) by (simp add: holds_def once_ok_def)
  have d: "pcs ?c ! i = Done" if "returned ?c" using returned_Done [OF that i] .
  have p: "\<exists>extra. length extra \<le> 11 \<and>
      count_list (trace (runAll (sched @ extra) ex)) (i, Invoke) = 1"
    if "coutMutex ex = None" "\<not> terminated ?c"
    using that assms by (intro can_execute)
  have "count_list (trace ?c) (i, Invoke) \<le> 1" using ok by simp
  moreover have "pcs ?c ! i = Done \<longrightarrow> count_list (trace ?c) (i, Invoke) = 1"
    using ok by auto
  moreover have "returned ?c \<longrightarrow> count_list (trace ?c) (i, Invoke) = 1"
    using ok d by auto
  ultimately show ?thesis using p by blast
qed

theorem C7_witness:
  "(1::nat) < length (tasks main_executor) \<and> \<not> isRepeating (tasks main_executor ! 1) \<and>
   pcs (runAll main_schedule main_executor) ! 1 = Done \<and>
   returned (runAll main_schedule main_executor) \<and>
   count_list (trace (runAll main_schedule main_executor)) (1, Invoke) = 1 \<and>
   (2::nat) < length (tasks main_executor) \<and> \<not> isRepeating (tasks main_executor ! 2) \<and>
   coutMutex main_executor = None \<and>
   \<not> terminated (runAll held_schedule main_executor) \<and>
   (\<exists>extra. length extra \<le> 11 \<and>
      count_list (trace (runAll (held_schedule @ extra) main_executor)) (2, Invoke) = 1) \<and>
   (1::nat) < length (tasks preempted_executor) \<and>
   \<not> isRepeating (tasks preempted_executor ! 1) \<and>
   coutMutex preempted_executor = None \<and>
   (0, Fault ''boom'') \<in> set (trace (runAll (replicate 8 (Worker 0)) preempted_executor)) \<and>
   \<not> terminated (runAll (replicate 8 (Worker 0)) preempted_executor) \<and>
   (\<exists>extra. length extra \<le> 11 \<and>
      count_list (trace (runAll (replicate 8 (Worker 0) @ extra) preempted_executor))
        (1, Invoke) = 1)"
proof -
  have a: "(1::nat) < length (tasks main_executor)" by code_simp
  have b: "\<not> isRepeating (tasks main_executor ! 1)" by code_simp
  have c: "pcs (runAll main_schedule main_executor) ! 1 = Done" by code_simp
  have d: "returned (runAll main_schedule main_executor)" by code_simp
  have e: "(1::nat) < length (tasks preempted_executor)" by code_simp
  have f: "\<not> isRepeating (tasks preempted_executor ! 1)" by code_simp
  have g: "coutMutex preempted_executor = None" by code_simp
  have h: "(2::nat) < length (tasks main_executor)" by code_simp
  have k: "\<not> isRepeating (tasks main_executor ! 2)" by code_simp
  have l: "coutMutex main_executor = None" by code_simp
  have m: "\<not> terminated (runAll held_schedule main_executor)" by code_simp
  have n: "(0, Fault ''boom'') \<in> set (trace (runAll (replicate 8 (Worker 0)) preempted_executor))"
    by code_simp
  have o: "\<not> terminated (runAll (replicate 8 (Worker 0)) preempted_executor)" by code_simp
  have "count_list (trace (runAll main_schedule main_executor)) (1, Invoke) = 1"
    using C7_execute_once [OF a b, of main_schedule] d by blast
  moreover have "\<exists>extra. length extra \<le> 11 \<and>
      count_list (trace (runAll (held_schedule @ extra) main_executor)) (2, Invoke) = 1"
    using C7_execute_once [OF h k, of held_schedule] l m by blast
  moreover have "\<exists>extra. length extra \<le> 11 \<and>
      count_list (trace (runAll (replicate 8 (Worker 0) @ extra) preempted_executor))
        (1, Invoke) = 1"
    using C7_execute_once [OF e f, of "replicate 8 (Worker 0)"] g o by blast
  ultimately show ?thesis using a b c d e f g h k l m n o by blast
qed

text \<open>
  C7 as stated fails where another task fails: a non-repeating print task is registered
  after a task whose \<^verbatim>\<open>execute\<close> throws. The exception leaves worker 0 and \<^verbatim>\<open>std::terminate\<close>
  ends the process before worker 1 has had a turn; the twenty turns the schedule then gives
  worker 1 come too late: its \<^verbatim>\<open>execute\<close> has not run.
\<close>

theorem C7_counterexample:
  "\<not> isRepeating (tasks preempted_executor ! 1) \<and>
   terminated (runAll preempted_schedule preempted_executor) \<and>
   \<not> returned (runAll preempted_schedule preempted_executor) \<and>
   pcs (runAll preempted_schedule preempted_executor) = [Terminating, LockStart] \<and>
   count_list (trace (runAll preempted_schedule preempted_executor)) (1, Invoke) = 0"
  by code_simp

subsection \<open>C8: requestStop is idempotent\<close>

text \<open>
  C8. For every \<open>N \<ge> 1\<close>, calling \<^verbatim>\<open>requestStop\<close> \<open>N\<close> times leaves the executor in the state
  one call leaves it in; and in a run, \<open>N\<close> calls in a row by the orchestrator leave the
  whole process in the state one call leaves it in.
\<close>

theorem C8_requestStop_idempotent:
  "0 < N \<Longrightarrow>
   (requestStop ^^ N) ex = requestStop ex \<and>
   run (replicate N RequestStop) c = run [RequestStop] c"
  by (simp add: requestStop_funpow run_replicate_RequestStop)

theorem C8_witness:
  "(0::nat) < 3 \<and> (requestStop ^^ 3) main_executor = requestStop main_executor \<and>
   run (replicate 3 RequestStop) (spawn main_executor) = run [RequestStop] (spawn main_executor)"
  using C8_requestStop_idempotent [of 3 main_executor "spawn main_executor"] by simp

subsection \<open>C9: the sum of ComputeTask\<close>

text \<open>
  C9, as the code has it. \<^verbatim>\<open>sum\<close> is a 32-bit int. For every limit \<open>N \<le> 65535\<close> the loop of
  \<^verbatim>\<open>ComputeTask::execute\<close> returns, the sum it has computed is the sum of the integers
  \<open>1..N\<close> (0 when \<open>N \<le> 0\<close>), and \<^verbatim>\<open>execute\<close> prints that number; a function of the limit
  alone, so the same on every run. For limit 100 it is 5050.
\<close>

theorem C9_compute_sum:
  assumes "sint limit \<le> 65535"
  shows "map_option sint (ComputeTask_sum limit) = Some (\<Sum>k = 1..sint limit. k) \<and>
    execute (ComputeTask limit nm) =
      [Print ''ComputeTask: Sum = '', Print (show_int (\<Sum>k = 1..sint limit. k)), PrintEndl]"
proof -
  from ComputeTask_sum_small [OF assms]
  obtain s where s: "ComputeTask_sum limit = Some s" "sint s = (\<Sum>k = 1..sint limit. k)"
    by (cases "ComputeTask_sum limit") auto
  then show ?thesis
    by (simp add: execute_def ComputeTask_def Task_def)
qed

theorem C9_witness:
  "sint (100::cint) \<le> 65535 \<and>
   map_option sint (ComputeTask_sum 100) = Some 5050 \<and>
   execute (ComputeTask 100 ''Calculator'') =
     [Print ''ComputeTask: Sum = '', Print ''5050'', PrintEndl]"
proof -
  have h: "sint (100::cint) \<le> 65535" by simp
  have s: "(\<Sum>k = 1..100. k) = (5050::int)" by (simp add: Sum_Icc_int)
  show ?thesis
    using C9_compute_sum [OF h, of "''Calculator''"] h by (simp add: s show_int_5050)
qed

text \<open>
  C9 as stated fails for a large limit: the sum of \<open>1..65536\<close> is 2147516416, which is not
  a 32-bit int; the last addition overflows, and what \<^verbatim>\<open>execute\<close> has computed and prints
  is -2147450880.
\<close>

theorem C9_counterexample:
  "map_option sint (ComputeTask_sum 65536) = Some (- 2147450880) \<and>
   (- 2147450880 :: int) \<noteq> 65536 * (65536 + 1) div 2 \<and>
   execute (ComputeTask 65536 ''Calculator'') =
     [Print ''ComputeTask: Sum = '', Print ''-2147450880'', PrintEndl]"
proof -
  have "sum_loop 65536 1 0 =
      Some (0 + word_of_int (\<Sum>k = sint (1::cint)..sint (65536::cint). k))"
    by (intro sum_loop_returns [OF refl]) simp_all
  then have s: "ComputeTask_sum 65536 = Some (word_of_int 2147516416)"
    by (simp add: ComputeTask_sum_def Sum_Icc_int)
  have v: "sint (word_of_int 2147516416 :: cint) = - 2147450880" by simp
  have sh: "show_int (- 2147450880) = ''-2147450880''"
    by (simp add: show_int_def show_digits.simps digit_def)
  show ?thesis
    by (simp add: s v sh execute_def ComputeTask_def Task_def)
qed

subsection \<open>C10: the stop flag is never reset\<close>

text \<open>
  C10. \<^verbatim>\<open>requestStop\<close> sets the stop flag; \<^verbatim>\<open>addTask\<close> leaves a set flag set; and from any
  state of a run in which the flag is set, whatever the workers and the orchestrator do
  next, the flag is still set: every later read of it by a worker finds it set.
\<close>

theorem C10_stop_monotone:
  "stopRequested (requestStop ex) \<and>
   (stopRequested ex \<longrightarrow> stopRequested (addTask t ex)) \<and>
   (stopRequested (exec c) \<longrightarrow> stopRequested (exec (run sched c)))"
  by (simp add: requestStop_def addTask_def run_stop)

theorem C10_witness:
  "stopRequested stopped_executor \<and> stopRequested (addTask negativeTask stopped_executor) \<and>
   stopRequested (exec (spawn stopped_executor)) \<and>
   stopRequested (exec (run main_schedule (spawn stopped_executor)))"
proof -
  have a: "stopRequested stopped_executor" by (simp add: stopped_executor_def requestStop_def)
  have b: "stopRequested (exec (spawn stopped_executor))" using a by (simp add: spawn_def)
  show ?thesis
    using C10_stop_monotone [of stopped_executor negativeTask "spawn stopped_executor"
        main_schedule] a b
    by simp
qed

section \<open>Further properties of the executor\<close>

text \<open>
  The stop protocol of lines 103-108, without the clock: once the stop flag is set, no
  repeating worker passes the loop test of line 104 again. Whatever the run goes on with,
  the number of calls of its \<^verbatim>\<open>execute\<close> stays what it was; only an execute already
  begun runs to its end.
\<close>

theorem stop_ends_repetition:
  assumes "stopRequested (exec (runAll sched ex))" "i < length (tasks ex)"
    "isRepeating (tasks ex ! i)"
  shows "count_list (trace (runAll (sched @ rest) ex)) (i, Invoke) =
    count_list (trace (runAll sched ex)) (i, Invoke)"
proof -
  have "runAll (sched @ rest) ex = run rest (runAll sched ex)"
    by (simp add: runAll_def run_append)
  then show ?thesis
    using no_reentry [of "runAll sched ex" i rest] assms by (simp add: runAll_frame)
qed

theorem stop_ends_repetition_witness:
  "stopRequested (exec (runAll stop_schedule main_executor)) \<and>
   (0::nat) < length (tasks main_executor) \<and> isRepeating (tasks main_executor ! 0) \<and>
   count_list (trace (runAll stop_schedule main_executor)) (0, Invoke) = 2 \<and>
   count_list (trace (runAll (stop_schedule @ printer_exit) main_executor)) (0, Invoke) = 2"
proof -
  have a: "stopRequested (exec (runAll stop_schedule main_executor))" by code_simp
  have b: "(0::nat) < length (tasks main_executor)" by code_simp
  have c: "isRepeating (tasks main_executor ! 0)" by code_simp
  have d: "count_list (trace (runAll stop_schedule main_executor)) (0, Invoke) = 2" by code_simp
  show ?thesis
    using stop_ends_repetition [OF a b c, of printer_exit] a b c d by simp
qed

text \<open>
  What \<^verbatim>\<open>coutMutex\<close> does give: no two workers are inside their start or end blocks
  (lines 93-96 and 113-116) at once.
\<close>

theorem mutual_exclusion:
  assumes "i < length (tasks ex)" "j < length (tasks ex)" "i \<noteq> j"
  shows "\<not> (critical (pcs (runAll sched ex) ! i) \<and> critical (pcs (runAll sched ex) ! j))"
proof -
  have "mutex_inv (spawn ex)" by (simp add: mutex_inv_def spawn_def)
  then have "mutex_inv (runAll sched ex)" unfolding runAll_def by (rule run_mutex_inv)
  then have m: "critical (pcs (runAll sched ex) ! k) \<Longrightarrow>
      coutMutex (exec (runAll sched ex)) = Some k" if "k < length (tasks ex)" for k
    using that by (simp add: mutex_inv_def runAll_frame)
  show ?thesis
  proof
    assume "critical (pcs (runAll sched ex) ! i) \<and> critical (pcs (runAll sched ex) ! j)"
    then have "Some i = Some j" using m [OF assms(1)] m [OF assms(2)] by simp
    then show False using assms(3) by simp
  qed
qed

theorem mutual_exclusion_witness:
  "(1::nat) < length (tasks main_executor) \<and> (2::nat) < length (tasks main_executor) \<and>
   (1::nat) \<noteq> 2 \<and>
   critical (pcs (runAll held_schedule main_executor) ! 1) \<and>
   \<not> critical (pcs (runAll held_schedule main_executor) ! 2)"
proof -
  have a: "(1::nat) < length (tasks main_executor)" by code_simp
  have b: "(2::nat) < length (tasks main_executor)" by code_simp
  have c: "critical (pcs (runAll held_schedule main_executor) ! 1)" by code_simp
  show ?thesis
    using mutual_exclusion [OF a b, of held_schedule] a b c by simp
qed

text \<open>
  Between the exception leaving a thread and the end of the process the other threads run
  on. The throwing task is registered before a non-repeating print task; the exception
  leaves worker 0 before worker 1 has had a turn, and worker 1 puts its start line,
  executes and puts its end line before \<^verbatim>\<open>std::terminate\<close> ends the process.
\<close>

theorem siblings_run_on_until_abort:
  "first_index (0, Fault ''boom'') (trace (runAll overtaken_schedule preempted_executor))
     < first_index (1, StartTag) (trace (runAll overtaken_schedule preempted_executor)) \<and>
   pcs (runAll overtaken_schedule preempted_executor) = [Terminating, Done] \<and>
   terminated (runAll overtaken_schedule preempted_executor) \<and>
   count_list (trace (runAll overtaken_schedule preempted_executor)) (1, Invoke) = 1 \<and>
   stdout (runAll overtaken_schedule preempted_executor) =
     ''[START] Faulty\<newline>[START] Once\<newline>PrintTask: Hello World\<newline>[END] Once\<newline>''"
  by code_simp

text \<open>
  With the largest int as its limit the loop of \<^verbatim>\<open>ComputeTask::execute\<close> does not return:
  the worker stays inside \<^verbatim>\<open>execute\<close> and \<^verbatim>\<open>runAll\<close> never returns.
\<close>

theorem ComputeTask_largest_limit_diverges:
  "ComputeTask_sum 2147483647 = None \<and> execute (ComputeTask 2147483647 nm) = [Diverge]"
  by (simp add: execute_def ComputeTask_def Task_def ComputeTask_sum_def sum_loop_diverges)

end
